theory Spec2Isabelle
  imports Main "HOL-Library.Sublist"
begin

section \<open>JavaScript strings\<close>

text \<open>
  A JavaScript string is a sequence of UTF-16 code units. A code unit is modelled as a
  natural number and a string as a list of them, so that every JavaScript string is a
  value of \<open>jsstring\<close>; the program never computes with code units, it only compares
  them. \<open>js\<close> turns an Isabelle string literal into such a string.
\<close>

type_synonym jschar = nat
type_synonym jsstring = "jschar list"

definition js :: "string \<Rightarrow> jsstring" where
  "js s = map of_char s"

definition LF :: jschar where "LF = 10"
definition CR :: jschar where "CR = 13"
definition TAB :: jschar where "TAB = 9"
definition SPACE :: jschar where "SPACE = 32"
definition HASH :: jschar where "HASH = 35"
definition DQUOTE :: jschar where "DQUOTE = 34"
definition SQUOTE :: jschar where "SQUOTE = 39"
definition BACKSLASH :: jschar where "BACKSLASH = 92"
definition EQUALS :: jschar where "EQUALS = 61"
definition UNDERSCORE :: jschar where "UNDERSCORE = 95"
definition LOWER_N :: jschar where "LOWER_N = 110"
definition LOWER_R :: jschar where "LOWER_R = 114"
definition LOWER_T :: jschar where "LOWER_T = 116"

text \<open>
  The line terminators of ECMAScript: LF, CR, U+2028 and U+2029. The regular expression
  atom \<open>.\<close> matches every code unit but these.
\<close>

definition isLineTerminator :: "jschar \<Rightarrow> bool" where
  "isLineTerminator c \<longleftrightarrow> c = LF \<or> c = CR \<or> c = 8232 \<or> c = 8233"

text \<open>
  What \<open>String.prototype.trim\<close> strips and what \<open>\s\<close> matches: the white space
  code points (TAB, VT, FF, SP, NBSP, U+FEFF and the space separators U+1680,
  U+2000 to U+200A, U+202F, U+205F, U+3000) and the line terminators.
\<close>

definition isWhitespace :: "jschar \<Rightarrow> bool" where
  "isWhitespace c \<longleftrightarrow>
     c = TAB \<or> c = 11 \<or> c = 12 \<or> c = SPACE \<or> c = 160 \<or> c = 65279 \<or>
     c = 5760 \<or> (8192 \<le> c \<and> c \<le> 8202) \<or> c = 8239 \<or> c = 8287 \<or> c = 12288 \<or>
     isLineTerminator c"

definition trim :: "jsstring \<Rightarrow> jsstring" where
  "trim s = rev (dropWhile isWhitespace (rev (dropWhile isWhitespace s)))"

definition startsWith :: "jsstring \<Rightarrow> jschar \<Rightarrow> bool" where
  "startsWith s c \<longleftrightarrow> (case s of [] \<Rightarrow> False | x # _ \<Rightarrow> x = c)"

definition endsWith :: "jsstring \<Rightarrow> jschar \<Rightarrow> bool" where
  "endsWith s c \<longleftrightarrow> (case rev s of [] \<Rightarrow> False | x # _ \<Rightarrow> x = c)"

definition includesChar :: "jsstring \<Rightarrow> jschar \<Rightarrow> bool" where
  "includesChar s c \<longleftrightarrow> c \<in> set s"

text \<open>
  \<open>s.slice(start, end)\<close>: a negative index counts from the end, both indices are
  clamped to the string, and the result is empty when the start is not before the end.
\<close>

definition slice :: "jsstring \<Rightarrow> int \<Rightarrow> int \<Rightarrow> jsstring" where
  "slice s start end' =
     (let len = int (length s);
          from = (if start < 0 then max (len + start) 0 else min start len);
          to = (if end' < 0 then max (len + end') 0 else min end' len)
      in take (nat (to - from)) (drop (nat from) s))"

text \<open>\<open>lines.join("\n")\<close>.\<close>

fun joinLines :: "jsstring list \<Rightarrow> jsstring" where
  "joinLines [] = []"
| "joinLines [l] = l"
| "joinLines (l # m # ls) = l @ LF # joinLines (m # ls)"

text \<open>
  \<open>content.split(/\r?\n/)\<close>: the text is cut at every LF, and a CR directly before
  the LF belongs to the separator. The first argument is the piece read so far. The empty
  text gives one empty piece.
\<close>

fun splitFrom :: "jsstring \<Rightarrow> jsstring \<Rightarrow> jsstring list" where
  "splitFrom piece [] = [piece]"
| "splitFrom piece [c] = (if c = LF then [piece, []] else [piece @ [c]])"
| "splitFrom piece (c # d # cs) =
     (if c = LF then piece # splitFrom [] (d # cs)
      else if c = CR \<and> d = LF then piece # splitFrom [] cs
      else splitFrom (piece @ [c]) (d # cs))"

definition splitLines :: "jsstring \<Rightarrow> jsstring list" where
  "splitLines content = splitFrom [] content"

text \<open>
  \<open>s.replace(/c/g, r)\<close> for a pattern of one code unit, and \<open>s.replace(/ab/g, r)\<close>
  for a pattern of two: every match is replaced, scanning from the left, and the scan
  goes on behind the match.
\<close>

fun replaceChar :: "jschar \<Rightarrow> jsstring \<Rightarrow> jsstring \<Rightarrow> jsstring" where
  "replaceChar c r [] = []"
| "replaceChar c r (x # xs) = (if x = c then r @ replaceChar c r xs else x # replaceChar c r xs)"

fun replacePair :: "jschar \<Rightarrow> jschar \<Rightarrow> jsstring \<Rightarrow> jsstring \<Rightarrow> jsstring" where
  "replacePair a b r (x # y # zs) =
     (if x = a \<and> y = b then r @ replacePair a b r zs else x # replacePair a b r (y # zs))"
| "replacePair a b r xs = xs"

section \<open>The parser (src/core/parser.ts)\<close>

datatype line =
  LComment (lcontent: jsstring)
| LEmpty
| LVariable (lkey: jsstring) (lvalue: jsstring) (lraw: jsstring)

text \<open>
  A document is the chain of blocks reached from its head through \<open>next\<close>; it is
  modelled as the list of its blocks, \<open>null\<close> being the empty list. A reference to a
  block of a chain is its position in the list.
\<close>

datatype block =
  CommentBlock (lines: "jsstring list")
| EmptyBlock
| VariableBlock (key: jsstring) (val: jsstring) (raw: jsstring) (comments: "jsstring list")

text \<open>Remove quotes from a value if present.\<close>

definition unescape :: "jsstring \<Rightarrow> jsstring" where
  "unescape s =
     replacePair BACKSLASH DQUOTE [DQUOTE]
       (replacePair BACKSLASH BACKSLASH [BACKSLASH]
         (replacePair BACKSLASH LOWER_T [TAB]
           (replacePair BACKSLASH LOWER_R [CR]
             (replacePair BACKSLASH LOWER_N [LF] s))))"

definition unquoteValue :: "jsstring \<Rightarrow> jsstring" where
  "unquoteValue v =
     (let trimmed = trim v in
      if startsWith trimmed SQUOTE \<and> endsWith trimmed SQUOTE then slice trimmed 1 (- 1)
      else if startsWith trimmed DQUOTE \<and> endsWith trimmed DQUOTE
        then unescape (slice trimmed 1 (- 1))
      else trimmed)"

text \<open>Quote a value for .env format.\<close>

definition escape :: "jsstring \<Rightarrow> jsstring" where
  "escape v =
     replaceChar TAB [BACKSLASH, LOWER_T]
       (replaceChar CR [BACKSLASH, LOWER_R]
         (replaceChar LF [BACKSLASH, LOWER_N]
           (replaceChar DQUOTE [BACKSLASH, DQUOTE]
             (replaceChar BACKSLASH [BACKSLASH, BACKSLASH] v))))"

definition needsQuotes :: "jsstring \<Rightarrow> bool" where
  "needsQuotes v \<longleftrightarrow>
     includesChar v SPACE \<or> includesChar v LF \<or> includesChar v CR \<or> includesChar v TAB \<or>
     includesChar v HASH \<or> includesChar v DQUOTE \<or> includesChar v SQUOTE \<or> includesChar v BACKSLASH"

definition quoteValue :: "jsstring \<Rightarrow> jsstring" where
  "quoteValue v = (if needsQuotes v then DQUOTE # escape v @ [DQUOTE] else v)"

text \<open>
  The match of \<open>/^([A-Za-z_][A-Za-z0-9_]*)\s*=\s*(.*)$/\<close>. Every starred class is
  followed by a code unit outside the class (\<open>=\<close> is neither an identifier character
  nor white space, and \<open>.\<close> has to reach the end of the line), so backtracking never
  finds a second way to match: the key is the longest identifier prefix, the white space on
  both sides of \<open>=\<close> is taken whole, and the line matches when what is left has no
  line terminator. The result is the two groups.
\<close>

definition isIdentStart :: "jschar \<Rightarrow> bool" where
  "isIdentStart c \<longleftrightarrow> (65 \<le> c \<and> c \<le> 90) \<or> (97 \<le> c \<and> c \<le> 122) \<or> c = UNDERSCORE"

definition isIdentChar :: "jschar \<Rightarrow> bool" where
  "isIdentChar c \<longleftrightarrow> isIdentStart c \<or> (48 \<le> c \<and> c \<le> 57)"

definition matchVariable :: "jsstring \<Rightarrow> (jsstring \<times> jsstring) option" where
  "matchVariable l =
     (case l of
        [] \<Rightarrow> None
      | c # cs \<Rightarrow>
          if isIdentStart c then
            (case dropWhile isWhitespace (dropWhile isIdentChar cs) of
               [] \<Rightarrow> None
             | e # rest \<Rightarrow>
                 let v = dropWhile isWhitespace rest in
                 if e = EQUALS \<and> \<not> list_ex isLineTerminator v
                 then Some (c # takeWhile isIdentChar cs, v)
                 else None)
          else None)"

text \<open>Parse a single line from an .env file.\<close>

definition parseLine :: "jsstring \<Rightarrow> line" where
  "parseLine l =
     (let trimmed = trim l in
      if trimmed = [] then LEmpty
      else if startsWith trimmed HASH then LComment l
      else (case matchVariable l of
              Some (k, v) \<Rightarrow> LVariable k (unquoteValue v) l
            | None \<Rightarrow> LComment l))"

text \<open>
  Parse lines into the chain of blocks. The state of the loop: the chain built so far
  (\<open>head\<close> and \<open>current\<close> of the source, every new block being linked behind the
  last), the pending comments, the number of consecutive empty lines and the flag
  \<open>hasEmptyLineAfterComment\<close>.
\<close>

record pstate =
  chain :: "block list"
  pendingComments :: "jsstring list"
  consecutiveEmptyLines :: nat
  hasEmptyLineAfterComment :: bool

text \<open>
  \<open>isNextNonEmptyComment(i)\<close>, given the lines behind line \<open>i\<close>.
\<close>

fun isNextNonEmptyComment :: "line list \<Rightarrow> bool" where
  "isNextNonEmptyComment [] = False"
| "isNextNonEmptyComment (LComment c # ls) = True"
| "isNextNonEmptyComment (LVariable k v r # ls) = False"
| "isNextNonEmptyComment (LEmpty # ls) = isNextNonEmptyComment ls"

text \<open>One turn of the loop of \<open>parseBlocks\<close>, at a line and the lines behind it.\<close>

definition parseStep :: "pstate \<Rightarrow> line \<Rightarrow> line list \<Rightarrow> pstate" where
  "parseStep st l rest =
     (case l of
        LVariable k v r \<Rightarrow>
          st\<lparr>chain := chain st @ [VariableBlock k v r (pendingComments st)],
             pendingComments := [], consecutiveEmptyLines := 0,
             hasEmptyLineAfterComment := False\<rparr>
      | LComment c \<Rightarrow>
          (let st1 = (if pendingComments st \<noteq> [] \<and> hasEmptyLineAfterComment st
                      then st\<lparr>chain := chain st @ [CommentBlock (pendingComments st)],
                              pendingComments := [], hasEmptyLineAfterComment := False\<rparr>
                      else st)
           in st1\<lparr>pendingComments := pendingComments st1 @ [c], consecutiveEmptyLines := 0\<rparr>)
      | LEmpty \<Rightarrow>
          if pendingComments st \<noteq> [] then
            if isNextNonEmptyComment rest then
              (let st1 = (if consecutiveEmptyLines st = 0
                          then st\<lparr>pendingComments := pendingComments st @ [[]],
                                  hasEmptyLineAfterComment := True\<rparr>
                          else st)
               in st1\<lparr>consecutiveEmptyLines := consecutiveEmptyLines st1 + 1\<rparr>)
            else
              (let st1 = (if consecutiveEmptyLines st = 0
                          then st\<lparr>chain := chain st @ [CommentBlock (pendingComments st), EmptyBlock],
                                  pendingComments := [], hasEmptyLineAfterComment := False\<rparr>
                          else st)
               in st1\<lparr>consecutiveEmptyLines := consecutiveEmptyLines st1 + 1\<rparr>)
          else
            (if consecutiveEmptyLines st = 0
             then st\<lparr>chain := chain st @ [EmptyBlock], consecutiveEmptyLines := 1\<rparr>
             else st\<lparr>consecutiveEmptyLines := consecutiveEmptyLines st + 1\<rparr>))"

fun parseLoop :: "pstate \<Rightarrow> line list \<Rightarrow> pstate" where
  "parseLoop st [] = st"
| "parseLoop st (l # rest) = parseLoop (parseStep st l rest) rest"

definition initialState :: pstate where
  "initialState = \<lparr>chain = [], pendingComments = [], consecutiveEmptyLines = 0,
                   hasEmptyLineAfterComment = False\<rparr>"

definition finish :: "pstate \<Rightarrow> block list" where
  "finish st = (if pendingComments st \<noteq> [] then chain st @ [CommentBlock (pendingComments st)]
                else chain st)"

definition parseBlocks :: "line list \<Rightarrow> block list" where
  "parseBlocks ls = finish (parseLoop initialState ls)"

text \<open>Parse an .env file content into the chain of blocks.\<close>

definition parseEnvFile :: "jsstring \<Rightarrow> block list" where
  "parseEnvFile content = parseBlocks (map parseLine (splitLines content))"

text \<open>Serialize the chain of blocks back to lines, and to a string.\<close>

fun serializeBlock :: "block \<Rightarrow> line list" where
  "serializeBlock (VariableBlock k v r cs) = map LComment cs @ [LVariable k v r]"
| "serializeBlock (CommentBlock ls) = map LComment ls"
| "serializeBlock EmptyBlock = [LEmpty]"

definition serializeBlocks :: "block list \<Rightarrow> line list" where
  "serializeBlocks head = concat (map serializeBlock head)"

fun renderLine :: "line \<Rightarrow> jsstring" where
  "renderLine (LComment c) = c"
| "renderLine LEmpty = []"
| "renderLine (LVariable k v r) = k @ EQUALS # quoteValue v"

definition serializeToString :: "block list \<Rightarrow> jsstring" where
  "serializeToString head = joinLines (map renderLine (serializeBlocks head))"

section \<open>The merger (src/core/merger.ts)\<close>

fun isVariableBlock :: "block \<Rightarrow> bool" where
  "isVariableBlock (VariableBlock k v r cs) = True"
| "isVariableBlock b = False"

fun isCommentBlock :: "block \<Rightarrow> bool" where
  "isCommentBlock (CommentBlock ls) = True"
| "isCommentBlock b = False"

fun isEmptyBlock :: "block \<Rightarrow> bool" where
  "isEmptyBlock EmptyBlock = True"
| "isEmptyBlock b = False"

text \<open>Append a block to the end of the chain.\<close>

definition appendToTail :: "block list \<Rightarrow> block \<Rightarrow> block list" where
  "appendToTail head blockToAppend = head @ [blockToAppend]"

text \<open>
  Insert a block before the target block, which is given by its position. A chain without
  blocks becomes the inserted block; a target that is not in the chain makes the block the
  new tail.
\<close>

definition insertBefore :: "block list \<Rightarrow> nat \<Rightarrow> block \<Rightarrow> block list" where
  "insertBefore head targetBlock blockToInsert =
     (if head = [] then [blockToInsert]
      else if targetBlock < length head
        then take targetBlock head @ blockToInsert # drop targetBlock head
      else head @ [blockToInsert])"

text \<open>Find a variable block by key: the position of the first one with that key.\<close>

fun findVariableBlock :: "block list \<Rightarrow> jsstring \<Rightarrow> nat option" where
  "findVariableBlock [] k = None"
| "findVariableBlock (b # bs) k =
     (if isVariableBlock b \<and> key b = k then Some 0
      else map_option Suc (findVariableBlock bs k))"

text \<open>
  Find the next variable block after a given block. The argument is the chain behind that
  block (what its \<open>next\<close> points to).
\<close>

fun findNextVariable :: "block list \<Rightarrow> block option" where
  "findNextVariable [] = None"
| "findNextVariable (b # bs) = (if isVariableBlock b then Some b else findNextVariable bs)"

text \<open>
  Find the intersection point between source and base: the block of base that has the key
  of the first variable of \<open>sourceStart\<close> whose key base knows.
\<close>

fun findIntersectionPoint :: "block list \<Rightarrow> block list \<Rightarrow> nat option" where
  "findIntersectionPoint [] base = None"
| "findIntersectionPoint (current # rest) base =
     (if isVariableBlock current then
        (case findVariableBlock base (key current) of
           Some baseBlock \<Rightarrow> Some baseBlock
         | None \<Rightarrow> findIntersectionPoint rest base)
      else findIntersectionPoint rest base)"

definition areBlocksEqual :: "block option \<Rightarrow> block option \<Rightarrow> bool" where
  "areBlocksEqual a b =
     (case a of
        None \<Rightarrow> False
      | Some x \<Rightarrow>
          (case b of
             None \<Rightarrow> False
           | Some y \<Rightarrow>
               (case x of
                  CommentBlock la \<Rightarrow>
                    (case y of
                       CommentBlock lb \<Rightarrow> trim (joinLines la) = trim (joinLines lb)
                     | _ \<Rightarrow> False)
                | EmptyBlock \<Rightarrow> (case y of EmptyBlock \<Rightarrow> True | _ \<Rightarrow> False)
                | VariableBlock ka va ra ca \<Rightarrow>
                    (case y of
                       VariableBlock kb vb rb cb \<Rightarrow> ka = kb \<and> va = vb
                     | _ \<Rightarrow> False))))"

text \<open>
  The block that the backward walk of \<open>hasCommentBlockBefore\<close> stops at, given the
  blocks before the target from the nearest to the head: the empty blocks are skipped, and
  the walk ends with \<open>null\<close> when it passes the head.
\<close>

fun skipEmptyBackwards :: "block list \<Rightarrow> block option" where
  "skipEmptyBackwards [] = None"
| "skipEmptyBackwards (b # bs) = (if isEmptyBlock b then skipEmptyBackwards bs else Some b)"

text \<open>
  Check if a comment block already exists right before the target block (given by its
  position), skipping empty blocks when searching backwards. A target that is not in the
  chain gives false.
\<close>

definition hasCommentBlockBefore :: "block list \<Rightarrow> nat \<Rightarrow> block \<Rightarrow> bool" where
  "hasCommentBlockBefore head point comment =
     (if point < length head
      then areBlocksEqual (skipEmptyBackwards (rev (take point head))) (Some comment)
      else False)"

text \<open>
  Insert a comment block with smart positioning logic. \<open>behind\<close> is the chain behind
  the comment in its own document. The head of the chain is the block at position 0.
\<close>

definition appendComment :: "block list \<Rightarrow> block \<Rightarrow> block list" where
  "appendComment head comment =
     (if hasCommentBlockBefore head 0 comment then head else appendToTail head comment)"

definition insertCommentBlock :: "block list \<Rightarrow> block \<Rightarrow> block list \<Rightarrow> block list" where
  "insertCommentBlock head comment behind =
     (case findNextVariable behind of
        Some variable \<Rightarrow>
          (case findVariableBlock head (key variable) of
             Some point \<Rightarrow>
               if \<not> hasCommentBlockBefore head point comment
               then insertBefore head point comment
               else head
           | None \<Rightarrow> appendComment head comment)
      | None \<Rightarrow> appendComment head comment)"

text \<open>
  Merge two chains: the first loop of \<open>mergeTwo\<close> over the variables of source, and
  the second over its comments. The second argument is what is left of source, from
  \<open>current\<close> on.
\<close>

definition overrideBlock :: "block \<Rightarrow> block \<Rightarrow> block" where
  "overrideBlock baseBlock current =
     VariableBlock (key baseBlock) (val current)
       (key baseBlock @ EQUALS # quoteValue (val current)) (comments current)"

fun mergeVariables :: "block list \<Rightarrow> block list \<Rightarrow> block list" where
  "mergeVariables head [] = head"
| "mergeVariables head (current # rest) =
     (if \<not> isVariableBlock current then mergeVariables head rest
      else (case findVariableBlock head (key current) of
              Some baseBlock \<Rightarrow>
                mergeVariables (head[baseBlock := overrideBlock (head ! baseBlock) current]) rest
            | None \<Rightarrow>
                (case findIntersectionPoint rest head of
                   Some point \<Rightarrow> mergeVariables (insertBefore head point current) rest
                 | None \<Rightarrow> mergeVariables (appendToTail head current) rest)))"

fun mergeComments :: "block list \<Rightarrow> block list \<Rightarrow> block list" where
  "mergeComments head [] = head"
| "mergeComments head (current # rest) =
     (if \<not> isCommentBlock current then mergeComments head rest
      else mergeComments (insertCommentBlock head current rest) rest)"

definition mergeTwo :: "block list \<Rightarrow> block list \<Rightarrow> block list" where
  "mergeTwo base source = mergeComments (mergeVariables base source) source"

text \<open>
  Merge multiple sources, later sources overriding earlier ones; the \<open>null\<close> sources
  are left out.
\<close>

definition mergeSources :: "block list list \<Rightarrow> block list" where
  "mergeSources sources =
     (case filter (\<lambda>s. s \<noteq> []) sources of
        [] \<Rightarrow> []
      | first # others \<Rightarrow> foldl mergeTwo first others)"

section \<open>Auxiliary notions for the statements\<close>

text \<open>
  A comment line is held by a state of the grouping loop when it is in a block of the
  chain or among the pending comments.
\<close>

definition held :: "pstate \<Rightarrow> jsstring \<Rightarrow> bool" where
  "held st c \<longleftrightarrow> LComment c \<in> set (serializeBlocks (chain st)) \<or> c \<in> set (pendingComments st)"


text \<open>
  What stands for blank lines in a document: every empty block, and every empty string
  among the lines of a comment block or the comments of a variable.
\<close>

fun blankMarks :: "block \<Rightarrow> nat" where
  "blankMarks EmptyBlock = 1"
| "blankMarks (CommentBlock ls) = count_list ls []"
| "blankMarks (VariableBlock k v r cs) = count_list cs []"

definition blankCount :: "block list \<Rightarrow> nat" where
  "blankCount doc = sum_list (map blankMarks doc)"

text \<open>
  Two states of the grouping loop are alike when they differ at most in how many
  consecutive empty lines they have counted, both or none having counted some.
\<close>

definition alike :: "pstate \<Rightarrow> pstate \<Rightarrow> bool" where
  "alike st st' \<longleftrightarrow>
     chain st = chain st' \<and> pendingComments st = pendingComments st' \<and>
     hasEmptyLineAfterComment st = hasEmptyLineAfterComment st' \<and>
     (consecutiveEmptyLines st = 0) = (consecutiveEmptyLines st' = 0)"

text \<open>
  The definitions of a key in a document are its variable blocks with that key, in the order
  of the document. \<open>foundBlock\<close> is the block that the reference returned by
  \<open>findVariableBlock\<close> points to.
\<close>

definition isDefinition :: "jsstring \<Rightarrow> block \<Rightarrow> bool" where
  "isDefinition k b \<longleftrightarrow> isVariableBlock b \<and> key b = k"

definition definitionsOf :: "block list \<Rightarrow> jsstring \<Rightarrow> block list" where
  "definitionsOf doc k = filter (isDefinition k) doc"

definition foundBlock :: "block list \<Rightarrow> jsstring \<Rightarrow> block option" where
  "foundBlock head k = map_option (nth head) (findVariableBlock head k)"

text \<open>
  What the first loop of \<open>mergeTwo\<close> makes of a definition \<open>d\<close> of the key \<open>k\<close>
  in source, given the block found for \<open>k\<close> in base: a new key gives a copy of \<open>d\<close>,
  a known key gives the found block with the value of \<open>d\<close>, the raw form made of
  the key and the quoted value, and the comments of \<open>d\<close>.
\<close>

definition resolve :: "jsstring \<Rightarrow> block option \<Rightarrow> block \<Rightarrow> block option" where
  "resolve k found d =
     (case found of
        None \<Rightarrow> Some d
      | Some h \<Rightarrow> Some (VariableBlock k (val d) (k @ EQUALS # quoteValue (val d)) (comments d)))"

text \<open>The keys of the variable blocks of a document, in the order of the document.\<close>

definition varKeys :: "block list \<Rightarrow> jsstring list" where
  "varKeys doc = map key (filter isVariableBlock doc)"

text \<open>
  Whether the code unit \<open>a\<close> is directly followed by \<open>b\<close> somewhere in a string.
\<close>

fun adjacent :: "jschar \<Rightarrow> jschar \<Rightarrow> jsstring \<Rightarrow> bool" where
  "adjacent a b (x # y # zs) = ((x = a \<and> y = b) \<or> adjacent a b (y # zs))"
| "adjacent a b xs = False"

text \<open>
  A value has an ambiguous escape when a backslash in it is directly followed by one of the
  letters \<open>n\<close>, \<open>r\<close>, \<open>t\<close>: quoted, it reads as an escaped backslash and a letter,
  and the decoder, which replaces the escapes of line feed, carriage return and tab first,
  takes the second backslash and the letter for an escape.
\<close>

definition hasAmbiguousEscape :: "jsstring \<Rightarrow> bool" where
  "hasAmbiguousEscape v \<longleftrightarrow>
     adjacent BACKSLASH LOWER_N v \<or> adjacent BACKSLASH LOWER_R v \<or> adjacent BACKSLASH LOWER_T v"

text \<open>
  The values that quoting and decoding give back: no ambiguous escape, and, when the value
  is written without quotes, no white space at its ends (the decoder trims).
\<close>

definition roundTripSafe :: "jsstring \<Rightarrow> bool" where
  "roundTripSafe v \<longleftrightarrow> \<not> hasAmbiguousEscape v \<and> (needsQuotes v \<or> trim v = v)"

text \<open>
  The escapes of \<open>quoteValue\<close>, code unit by code unit: \<open>encodeWith cs\<close> writes
  a backslash and the code of every code unit that is in \<open>cs\<close>.
\<close>

definition codeOf :: "jschar \<Rightarrow> jschar" where
  "codeOf c = (if c = LF then LOWER_N else if c = CR then LOWER_R
               else if c = TAB then LOWER_T else c)"

definition escapeWith :: "jschar list \<Rightarrow> jschar \<Rightarrow> jsstring" where
  "escapeWith cs c = (if c \<in> set cs then [BACKSLASH, codeOf c] else [c])"

definition encodeWith :: "jschar list \<Rightarrow> jsstring \<Rightarrow> jsstring" where
  "encodeWith cs v = concat (map (escapeWith cs) v)"

text \<open>
  A list of lines with every run of blank lines cut down to its first line; the flag says
  that the line before was blank.
\<close>

fun compress :: "bool \<Rightarrow> line list \<Rightarrow> line list" where
  "compress inRun [] = []"
| "compress inRun (LEmpty # ls) = (if inRun then compress True ls else LEmpty # compress True ls)"
| "compress inRun (LComment c # ls) = LComment c # compress False ls"
| "compress inRun (LVariable k v r # ls) = LVariable k v r # compress False ls"

text \<open>The empty-string marker among comment lines reads as a blank line.\<close>

fun blankMarker :: "line \<Rightarrow> line" where
  "blankMarker (LComment c) = (if c = [] then LEmpty else LComment c)"
| "blankMarker l = l"

text \<open>
  A variable with its raw form made anew from the key and the quoted value, as a line and
  as a block; other lines and blocks are left as they are.
\<close>

fun rederiveLine :: "line \<Rightarrow> line" where
  "rederiveLine (LVariable k v r) = LVariable k v (k @ EQUALS # quoteValue v)"
| "rederiveLine l = l"

fun rederive :: "block \<Rightarrow> block" where
  "rederive (VariableBlock k v r cs) = VariableBlock k v (k @ EQUALS # quoteValue v) cs"
| "rederive b = b"

definition rederiveState :: "pstate \<Rightarrow> pstate" where
  "rederiveState st = st\<lparr>chain := map rederive (chain st)\<rparr>"

text \<open>The strings that \<open>[A-Za-z_][A-Za-z0-9_]*\<close> matches completely.\<close>

definition isIdentifier :: "jsstring \<Rightarrow> bool" where
  "isIdentifier k = (case k of [] \<Rightarrow> False | c # cs \<Rightarrow> isIdentStart c \<and> list_all isIdentChar cs)"




section \<open>Unfolding the definitions on concrete inputs\<close>

lemmas char_defs = LF_def CR_def TAB_def SPACE_def HASH_def DQUOTE_def SQUOTE_def
  BACKSLASH_def EQUALS_def UNDERSCORE_def LOWER_N_def LOWER_R_def LOWER_T_def

lemmas string_defs = js_def trim_def startsWith_def endsWith_def includesChar_def slice_def
  isWhitespace_def isLineTerminator_def isIdentStart_def isIdentChar_def splitLines_def

lemmas parser_defs = parseEnvFile_def parseBlocks_def parseLine_def matchVariable_def
  unquoteValue_def unescape_def quoteValue_def escape_def needsQuotes_def parseStep_def
  initialState_def finish_def serializeBlocks_def serializeToString_def

lemmas merger_defs = appendToTail_def insertBefore_def areBlocksEqual_def
  hasCommentBlockBefore_def appendComment_def insertCommentBlock_def overrideBlock_def
  mergeTwo_def mergeSources_def

section \<open>Evaluation of lines\<close>

text \<open>A line that matches the variable pattern is neither blank nor a comment.\<close>

lemma matchVariable_not_blank:
  assumes "matchVariable l = Some (k, v)"
  shows "trim l \<noteq> [] \<and> \<not> startsWith (trim l) HASH"
proof -
  from assms obtain c cs where l: "l = c # cs" and c: "isIdentStart c"
    by (auto simp: matchVariable_def split: list.splits if_splits)
  from c have nw: "\<not> isWhitespace c" and nh: "c \<noteq> HASH"
    by (auto simp: isIdentStart_def isWhitespace_def isLineTerminator_def
        TAB_def SPACE_def LF_def CR_def UNDERSCORE_def HASH_def)
  have "\<exists>ys. dropWhile isWhitespace (rev cs @ [c]) = ys @ [c]"
    using nw by (simp add: dropWhile_append)
  then obtain ys where ys: "dropWhile isWhitespace (rev cs @ [c]) = ys @ [c]" ..
  have "trim l = c # rev ys"
    using nw l ys by (simp add: trim_def)
  then show ?thesis using nh by (simp add: startsWith_def)
qed

lemma slice_single: "slice [c] 1 (- 1) = []"
  by (simp add: slice_def)

lemma unquoteValue_lone_quote:
  assumes "trim v = [SQUOTE] \<or> trim v = [DQUOTE]"
  shows "unquoteValue v = []"
proof -
  have "unescape [] = []" by (simp add: unescape_def)
  then show ?thesis
    using assms
    by (auto simp: unquoteValue_def startsWith_def endsWith_def slice_single Let_def)
qed

text \<open>
  Claim C10. For every variable line whose value, after trimming, is a single quote
  character (exactly \<open>'\<close> or exactly \<open>"\<close>), the one-character string both starts and
  ends with the quote, so the quote is stripped and the parsed value is the empty string:
  the line parses to a variable with its key, the empty value and the line as raw.
\<close>

theorem lone_quote_value:
  assumes "matchVariable l = Some (k, v)"
    and "trim v = [SQUOTE] \<or> trim v = [DQUOTE]"
  shows "parseLine l = LVariable k [] l"
  using assms matchVariable_not_blank[OF assms(1)] unquoteValue_lone_quote[OF assms(2)]
  by (simp add: parseLine_def)

theorem lone_quote_value_witness:
  "matchVariable (js ''KEY='' @ [SQUOTE]) = Some (js ''KEY'', [SQUOTE]) \<and>
   trim [SQUOTE] = [SQUOTE] \<and>
   parseLine (js ''KEY='' @ [SQUOTE]) = LVariable (js ''KEY'') [] (js ''KEY='' @ [SQUOTE])"
proof -
  have m: "matchVariable (js ''KEY='' @ [SQUOTE]) = Some (js ''KEY'', [SQUOTE])"
    by (simp add: matchVariable_def string_defs char_defs)
  have t: "trim [SQUOTE] = [SQUOTE]"
    by (simp add: string_defs char_defs)
  from lone_quote_value[OF m] t show ?thesis using m by simp
qed

text \<open>
  Claim C9. Parsing \<open>"# c\n\n\n# c2"\<close> yields exactly two comment blocks, the first
  with the lines \<open>"# c"\<close> and \<open>""\<close> (the run of blank lines as one empty marker), the
  second with the line \<open>"# c2"\<close>.
\<close>

theorem parse_two_comment_blocks:
  "parseEnvFile (js ''# c\<newline>\<newline>\<newline># c2'') =
     [CommentBlock [js ''# c'', []], CommentBlock [js ''# c2'']]"
  by (simp add: parser_defs string_defs char_defs)

theorem parse_two_comment_blocks_witness:
  "length (parseEnvFile (js ''# c\<newline>\<newline>\<newline># c2'')) = 2"
  using parse_two_comment_blocks by simp

section \<open>Comment lines survive the grouping pass\<close>

lemma serializeBlocks_append [simp]:
  "serializeBlocks (xs @ ys) = serializeBlocks xs @ serializeBlocks ys"
  by (simp add: serializeBlocks_def)

lemma serializeBlocks_Cons [simp]:
  "serializeBlocks (x # xs) = serializeBlock x @ serializeBlocks xs"
  by (simp add: serializeBlocks_def)

lemma serializeBlocks_Nil [simp]: "serializeBlocks [] = []"
  by (simp add: serializeBlocks_def)

lemma parseStep_keeps: "held st c \<Longrightarrow> held (parseStep st l rest) c"
  by (cases l) (auto simp: held_def parseStep_def Let_def)

lemma parseStep_adds: "held (parseStep st (LComment c) rest) c"
  by (auto simp: held_def parseStep_def Let_def)

lemma parseLoop_keeps: "held st c \<Longrightarrow> held (parseLoop st ls) c"
  by (induction ls arbitrary: st) (auto intro: parseStep_keeps)

lemma parseLoop_adds: "LComment c \<in> set ls \<Longrightarrow> held (parseLoop st ls) c"
  by (induction ls arbitrary: st) (auto intro: parseLoop_keeps parseStep_adds)

lemma finish_held: "held st c \<Longrightarrow> LComment c \<in> set (serializeBlocks (finish st))"
  by (auto simp: held_def finish_def)

lemma parseBlocks_keeps_comments:
  "LComment c \<in> set ls \<Longrightarrow> LComment c \<in> set (serializeBlocks (parseBlocks ls))"
  unfolding parseBlocks_def by (rule finish_held) (rule parseLoop_adds)

text \<open>
  Claim C7. \<open>parseEnvFile\<close> is a total function from strings to chains of blocks, with no
  error among its results: no function it is built from can fail. Every physical line of
  the input that is not blank, does not start with \<open>#\<close> after trimming and does not
  match the variable pattern is classified as a comment line with its text unchanged, and
  this comment line is among the lines of the parsed document.
\<close>

theorem parse_total_preserves_lines:
  assumes "l \<in> set (splitLines text)"
    and "trim l \<noteq> []"
    and "\<not> startsWith (trim l) HASH"
    and "matchVariable l = None"
  shows "parseLine l = LComment l \<and> LComment l \<in> set (serializeBlocks (parseEnvFile text))"
proof -
  have p: "parseLine l = LComment l"
    using assms(2-4) by (simp add: parseLine_def)
  with assms(1) have "LComment l \<in> set (map parseLine (splitLines text))"
    by force
  then show ?thesis using p
    by (simp add: parseEnvFile_def parseBlocks_keeps_comments)
qed

theorem parse_total_preserves_lines_witness:
  "js ''not a variable'' \<in> set (splitLines (js ''A=1\<newline>not a variable\<newline>B=2'')) \<and>
   trim (js ''not a variable'') \<noteq> [] \<and>
   \<not> startsWith (trim (js ''not a variable'')) HASH \<and>
   matchVariable (js ''not a variable'') = None \<and>
   parseLine (js ''not a variable'') = LComment (js ''not a variable'') \<and>
   LComment (js ''not a variable'') \<in>
     set (serializeBlocks (parseEnvFile (js ''A=1\<newline>not a variable\<newline>B=2'')))"
proof -
  have 1: "js ''not a variable'' \<in> set (splitLines (js ''A=1\<newline>not a variable\<newline>B=2''))"
    by (simp add: string_defs char_defs)
  have 2: "trim (js ''not a variable'') \<noteq> []"
    by (simp add: string_defs char_defs)
  have 3: "\<not> startsWith (trim (js ''not a variable'')) HASH"
    by (simp add: string_defs char_defs)
  have 4: "matchVariable (js ''not a variable'') = None"
    by (simp add: matchVariable_def string_defs char_defs)
  from parse_total_preserves_lines[OF 1 2 3 4] 1 2 3 4 show ?thesis by simp
qed

section \<open>Comments behind the last variable, and merging again\<close>

lemma parse_K0: "parseEnvFile (js ''K=0'') = [VariableBlock (js ''K'') (js ''0'') (js ''K=0'') []]"
  by (simp add: parser_defs string_defs char_defs)

lemma parse_K1t: "parseEnvFile (js ''K=1\<newline># t'') =
   [VariableBlock (js ''K'') (js ''1'') (js ''K=1'') [], CommentBlock [js ''# t'']]"
  by (simp add: parser_defs string_defs char_defs)

lemma parse_t: "parseEnvFile (js ''# t'') = [CommentBlock [js ''# t'']]"
  by (simp add: parser_defs string_defs char_defs)

text \<open>
  The check that guards the append, \<open>hasCommentBlockBefore(head, head, comment)\<close>, looks
  for a block before the head of the chain. There is none, so the check is false for every
  chain and every comment, and the comment is appended always.
\<close>

lemma hasCommentBlockBefore_head: "hasCommentBlockBefore head 0 comment = False"
  by (simp add: hasCommentBlockBefore_def areBlocksEqual_def)

lemma appendComment_always: "appendComment head comment = head @ [comment]"
  by (simp add: appendComment_def hasCommentBlockBefore_head appendToTail_def)

text \<open>
  Claim C1. Idempotence of the merge, \<open>serialize (mergeSources (mergeSources (a, b), a, b))
  = serialize (mergeSources (a, b))\<close>, evaluated at \<open>a = parse "K=0"\<close> and
  \<open>b = parse "K=1\n# t"\<close>: the first merge gives \<open>"K=1\n# t"\<close>, merging again gives
  \<open>"K=1\n# t\n# t"\<close>. Every use of a document stands for a chain of its own, as a fresh
  parse gives it.
\<close>

theorem remerge_appends_trailing_comment:
  "serializeToString (mergeSources [parseEnvFile (js ''K=0''), parseEnvFile (js ''K=1\<newline># t'')])
     = js ''K=1\<newline># t'' \<and>
   serializeToString
     (mergeSources [mergeSources [parseEnvFile (js ''K=0''), parseEnvFile (js ''K=1\<newline># t'')],
        parseEnvFile (js ''K=0''), parseEnvFile (js ''K=1\<newline># t'')])
     = js ''K=1\<newline># t\<newline># t''"
  unfolding parse_K0 parse_K1t
  by (simp add: merger_defs parser_defs string_defs char_defs)

text \<open>
  Claim C5. The placement of a comment block of source that has no anchor, evaluated at
  base \<open>parse "# t"\<close> and source \<open>parse "# t"\<close>: an equal block is at the head of base,
  and the comment is appended all the same.
\<close>

theorem equal_comment_at_head_appended:
  "mergeSources [parseEnvFile (js ''# t''), parseEnvFile (js ''# t'')] =
     [CommentBlock [js ''# t''], CommentBlock [js ''# t'']]"
  unfolding parse_t
  by (simp add: merger_defs parser_defs string_defs char_defs)

section \<open>Runs of blank lines\<close>

lemma alike_refl: "alike st st"
  by (simp add: alike_def)

lemma alike_trans: "alike a b \<Longrightarrow> alike b c \<Longrightarrow> alike a c"
  by (simp add: alike_def)

lemma parseStep_alike: "alike st st' \<Longrightarrow> alike (parseStep st l rest) (parseStep st' l rest)"
  by (cases l) (auto simp: alike_def parseStep_def Let_def)

lemma parseLoop_alike: "alike st st' \<Longrightarrow> alike (parseLoop st ls) (parseLoop st' ls)"
  by (induction ls arbitrary: st st') (auto intro: parseStep_alike)

lemma finish_alike: "alike st st' \<Longrightarrow> finish st = finish st'"
  by (simp add: alike_def finish_def)


lemma parseStep_lookahead:
  "isNextNonEmptyComment rest = isNextNonEmptyComment rest' \<Longrightarrow>
   parseStep st l rest = parseStep st l rest'"
  by (simp add: parseStep_def)

lemma parseStep_blank_again:
  "consecutiveEmptyLines st \<noteq> 0 \<Longrightarrow> alike (parseStep st LEmpty rest) st"
  by (auto simp: alike_def parseStep_def Let_def)






text \<open>The blank lines that a state of the loop stands for, and how a step changes them.\<close>

lemma blankCount_append [simp]: "blankCount (xs @ ys) = blankCount xs + blankCount ys"
  by (simp add: blankCount_def)

lemma blankCount_Cons [simp]: "blankCount (x # xs) = blankMarks x + blankCount xs"
  by (simp add: blankCount_def)

lemma blankCount_Nil [simp]: "blankCount [] = 0"
  by (simp add: blankCount_def)

lemma count_list_append [simp]: "count_list (xs @ ys) a = count_list xs a + count_list ys a"
  by (induction xs) auto


lemma parseStep_in_run:
  "(0 < consecutiveEmptyLines (parseStep st l rest)) = (l = LEmpty)"
  by (cases l) (auto simp: parseStep_def Let_def)







section \<open>Which definition of a key wins\<close>

lemma foundBlock_find: "foundBlock head k = find (isDefinition k) head"
  by (induction head) (auto simp: foundBlock_def isDefinition_def option.map_comp comp_def)

lemma findVariableBlock_None: "findVariableBlock head k = None \<longleftrightarrow> (\<forall>b\<in>set head. \<not> isDefinition k b)"
  by (induction head) (auto simp: isDefinition_def)

lemma findVariableBlock_Some:
  "findVariableBlock head k = Some i \<Longrightarrow> i < length head \<and> isDefinition k (head ! i)"
  by (induction head arbitrary: i) (auto simp: isDefinition_def split: if_splits)

lemma find_update_first:
  "findVariableBlock head k = Some i \<Longrightarrow> isDefinition k x \<Longrightarrow>
   find (isDefinition k') (head[i := x]) = (if k = k' then Some x else find (isDefinition k') head)"
  by (induction head arbitrary: i) (auto simp: isDefinition_def split: if_splits)

lemma find_insert_other:
  "\<not> P c \<Longrightarrow> find P (take p xs @ c # drop p xs) = find P xs"
proof (induction xs arbitrary: p)
  case Nil
  then show ?case by simp
next
  case (Cons x xs)
  then show ?case by (cases p) auto
qed

lemma find_insert_new:
  "\<forall>b\<in>set xs. \<not> P b \<Longrightarrow> P c \<Longrightarrow> find P (take p xs @ c # drop p xs) = Some c"
proof (induction xs arbitrary: p)
  case Nil
  then show ?case by simp
next
  case (Cons x xs)
  then show ?case by (cases p) auto
qed

lemma find_append_other: "\<not> P c \<Longrightarrow> find P (xs @ [c]) = find P xs"
  by (induction xs) auto

lemma find_append_new: "\<forall>b\<in>set xs. \<not> P b \<Longrightarrow> P c \<Longrightarrow> find P (xs @ [c]) = Some c"
  by (induction xs) auto

lemma find_None: "\<forall>b\<in>set xs. \<not> P b \<Longrightarrow> find P xs = None"
  by (induction xs) auto

lemma found_insertBefore_other:
  "\<not> isDefinition k c \<Longrightarrow> foundBlock (insertBefore head p c) k = foundBlock head k"
  by (simp add: foundBlock_find insertBefore_def find_insert_other find_append_other)

lemma found_insertBefore_new:
  "findVariableBlock head k = None \<Longrightarrow> isDefinition k c \<Longrightarrow>
   foundBlock (insertBefore head p c) k = Some c"
  by (simp add: foundBlock_find insertBefore_def find_insert_new find_append_new
      findVariableBlock_None)

lemma found_append_other:
  "\<not> isDefinition k c \<Longrightarrow> foundBlock (appendToTail head c) k = foundBlock head k"
  by (simp add: foundBlock_find appendToTail_def find_append_other)

lemma found_append_new:
  "findVariableBlock head k = None \<Longrightarrow> isDefinition k c \<Longrightarrow>
   foundBlock (appendToTail head c) k = Some c"
  by (simp add: foundBlock_find appendToTail_def find_append_new findVariableBlock_None)

lemma overrideBlock_definition:
  "isDefinition k h \<Longrightarrow> isDefinition k (overrideBlock h d)"
  by (simp add: isDefinition_def overrideBlock_def)

lemma found_override:
  assumes "findVariableBlock head k = Some i"
  shows "foundBlock (head[i := overrideBlock (head ! i) d]) k' =
           (if k = k' then Some (overrideBlock (head ! i) d) else foundBlock head k')"
  using find_update_first[OF assms overrideBlock_definition] findVariableBlock_Some[OF assms]
  by (simp add: foundBlock_find)

lemma definitionsOf_Cons:
  "definitionsOf (b # bs) k = (if isDefinition k b then b # definitionsOf bs k else definitionsOf bs k)"
  by (simp add: definitionsOf_def)

lemma mergeVariables_found:
  "foundBlock (mergeVariables head src) k = foldl (resolve k) (foundBlock head k) (definitionsOf src k)"
proof (induction src arbitrary: head)
  case Nil
  show ?case by (simp add: definitionsOf_def)
next
  case (Cons current rest)
  show ?case
  proof (cases "isVariableBlock current")
    case False
    then show ?thesis using Cons.IH by (simp add: definitionsOf_Cons isDefinition_def)
  next
    case var: True
    show ?thesis
    proof (cases "findVariableBlock head (key current)")
      case (Some i)
      let ?h' = "head[i := overrideBlock (head ! i) current]"
      have hi: "isDefinition (key current) (head ! i)"
        using findVariableBlock_Some[OF Some] by simp
      have loop: "foundBlock (mergeVariables head (current # rest)) k
                    = foldl (resolve k) (foundBlock ?h' k) (definitionsOf rest k)"
        using var Some Cons.IH[of ?h'] by simp
      have fo: "foundBlock ?h' k
                  = (if key current = k then Some (overrideBlock (head ! i) current)
                     else foundBlock head k)"
        by (rule found_override[OF Some])
      show ?thesis
      proof (cases "key current = k")
        case True
        have "foundBlock head k = Some (head ! i)"
          using Some True by (simp add: foundBlock_def)
        moreover have "overrideBlock (head ! i) current
          = VariableBlock k (val current) (k @ EQUALS # quoteValue (val current)) (comments current)"
          using hi True by (simp add: overrideBlock_def isDefinition_def)
        ultimately have "resolve k (foundBlock head k) current = foundBlock ?h' k"
          using fo True by (simp add: resolve_def)
        then show ?thesis
          using loop var True by (simp add: definitionsOf_Cons isDefinition_def)
      next
        case False
        then show ?thesis
          using loop fo by (simp add: definitionsOf_Cons isDefinition_def)
      qed
    next
      case None
      have none: "key current = k \<Longrightarrow> foundBlock head k = None"
        using None by (auto simp: foundBlock_def)
      show ?thesis
      proof (cases "findIntersectionPoint rest head")
        case (Some p)
        then show ?thesis
          using None var none Cons.IH[of "insertBefore head p current"]
          by (auto simp: definitionsOf_Cons isDefinition_def resolve_def
              found_insertBefore_new found_insertBefore_other)
      next
        case np: None
        then show ?thesis
          using None var none Cons.IH[of "appendToTail head current"]
          by (auto simp: definitionsOf_Cons isDefinition_def resolve_def
              found_append_new found_append_other)
      qed
    qed
  qed
qed

lemma found_insertCommentBlock:
  "isCommentBlock c \<Longrightarrow> foundBlock (insertCommentBlock head c behind) k = foundBlock head k"
  by (cases c)
    (auto simp: insertCommentBlock_def appendComment_def isDefinition_def
      found_insertBefore_other found_append_other split: option.splits)

lemma mergeComments_found:
  "foundBlock (mergeComments head src) k = foundBlock head k"
  by (induction src arbitrary: head) (auto simp: found_insertCommentBlock)

lemma mergeTwo_found:
  "foundBlock (mergeTwo base source) k = foldl (resolve k) (foundBlock base k) (definitionsOf source k)"
  by (simp add: mergeTwo_def mergeComments_found mergeVariables_found)

lemma definitionsOf_append [simp]:
  "definitionsOf (xs @ ys) k = definitionsOf xs k @ definitionsOf ys k"
  by (simp add: definitionsOf_def)

lemma foldl_mergeTwo_found:
  "foundBlock (foldl mergeTwo base docs) k
     = foldl (resolve k) (foundBlock base k) (definitionsOf (concat docs) k)"
  by (induction docs arbitrary: base) (auto simp: mergeTwo_found definitionsOf_def)

lemma concat_filter_nonempty: "concat (filter (\<lambda>s. s \<noteq> []) docs) = concat docs"
  by (induction docs) auto

lemma mergeSources_Cons:
  "a \<noteq> [] \<Longrightarrow> mergeSources (a # rest) = foldl mergeTwo a (filter (\<lambda>s. s \<noteq> []) rest)"
  by (simp add: mergeSources_def)

lemma resolve_Some: "resolve k found d \<noteq> None"
  by (simp add: resolve_def split: option.splits)

lemma foldl_resolve_last:
  "ds \<noteq> [] \<Longrightarrow> found \<noteq> None \<Longrightarrow>
   foldl (resolve k) found ds
     = Some (VariableBlock k (val (last ds)) (k @ EQUALS # quoteValue (val (last ds))) (comments (last ds)))"
proof (induction ds arbitrary: found)
  case Nil
  then show ?case by simp
next
  case (Cons d ds)
  show ?case
  proof (cases "ds = []")
    case True
    then show ?thesis using Cons.prems(2) by (auto simp: resolve_def)
  next
    case False
    then show ?thesis
      using Cons.IH[OF False resolve_Some[of k found d]] by simp
  qed
qed

text \<open>
  Claim C2. Let the first document define the key \<open>k\<close> and let \<open>k\<close> be defined in
  the documents merged in behind it (one for \<open>mergeSources (a, b)\<close>, two for three
  documents, and so on). Then \<open>findVariableBlock\<close> on the merged document finds a block
  for \<open>k\<close> that has the value of the rightmost definition of \<open>k\<close> in the later
  documents, whatever was defined before it; its raw form is regenerated from the key and
  the quoted new value, and its comments are those of that rightmost definition.
\<close>

theorem override_precedence:
  assumes "foundBlock a k \<noteq> None"
    and "definitionsOf (concat later) k \<noteq> []"
  shows "foundBlock (mergeSources (a # later)) k =
           Some (VariableBlock k
                   (val (last (definitionsOf (concat later) k)))
                   (k @ EQUALS # quoteValue (val (last (definitionsOf (concat later) k))))
                   (comments (last (definitionsOf (concat later) k))))"
proof -
  from assms(1) have "a \<noteq> []" by (auto simp: foundBlock_def)
  then show ?thesis
    using assms
    by (simp add: mergeSources_Cons foldl_mergeTwo_found concat_filter_nonempty foldl_resolve_last)
qed

theorem override_precedence_witness:
  "foundBlock (parseEnvFile (js ''K=0'')) (js ''K'') \<noteq> None \<and>
   definitionsOf (concat [parseEnvFile (js ''# n\<newline>K=1''), parseEnvFile (js ''K = 2 3'')]) (js ''K'') \<noteq> [] \<and>
   foundBlock (mergeSources [parseEnvFile (js ''K=0''), parseEnvFile (js ''# n\<newline>K=1''),
                             parseEnvFile (js ''K = 2 3'')]) (js ''K'')
     = Some (VariableBlock (js ''K'') (js ''2 3'') (js ''K='' @ DQUOTE # js ''2 3'' @ [DQUOTE]) [])"
proof -
  have a: "parseEnvFile (js ''K=0'') = [VariableBlock (js ''K'') (js ''0'') (js ''K=0'') []]"
    by (simp add: parser_defs string_defs char_defs)
  have b: "parseEnvFile (js ''# n\<newline>K=1'') = [VariableBlock (js ''K'') (js ''1'') (js ''K=1'') [js ''# n'']]"
    by (simp add: parser_defs string_defs char_defs)
  have c: "parseEnvFile (js ''K = 2 3'') = [VariableBlock (js ''K'') (js ''2 3'') (js ''K = 2 3'') []]"
    by (simp add: parser_defs string_defs char_defs)
  have 1: "foundBlock (parseEnvFile (js ''K=0'')) (js ''K'') \<noteq> None"
    unfolding a by (simp add: foundBlock_def)
  have 2: "definitionsOf (concat [parseEnvFile (js ''# n\<newline>K=1''), parseEnvFile (js ''K = 2 3'')]) (js ''K'') \<noteq> []"
    unfolding b c by (simp add: definitionsOf_def isDefinition_def)
  have 3: "last (definitionsOf (concat [parseEnvFile (js ''# n\<newline>K=1''), parseEnvFile (js ''K = 2 3'')]) (js ''K''))
             = VariableBlock (js ''K'') (js ''2 3'') (js ''K = 2 3'') []"
    unfolding b c by (simp add: definitionsOf_def isDefinition_def)
  have 4: "js ''K'' @ EQUALS # quoteValue (js ''2 3'') = js ''K='' @ DQUOTE # js ''2 3'' @ [DQUOTE]"
    by (simp add: parser_defs string_defs char_defs)
  from override_precedence[OF 1 2] 1 2 show ?thesis
    unfolding 3 by (simp add: 4)
qed

section \<open>The raw field\<close>

lemma parseStep_vars:
  "VariableBlock k v r cs \<in> set (chain (parseStep st l rest)) \<Longrightarrow>
   VariableBlock k v r cs \<in> set (chain st) \<or> l = LVariable k v r"
  by (cases l) (auto simp: parseStep_def Let_def split: if_splits)

lemma parseLoop_vars:
  "VariableBlock k v r cs \<in> set (chain (parseLoop st ls)) \<Longrightarrow>
   VariableBlock k v r cs \<in> set (chain st) \<or> LVariable k v r \<in> set ls"
proof (induction ls arbitrary: st)
  case Nil
  then show ?case by simp
next
  case (Cons l ls)
  then show ?case using parseStep_vars[of k v r cs st l ls] by auto
qed

lemma parseBlocks_vars:
  "VariableBlock k v r cs \<in> set (parseBlocks ls) \<Longrightarrow> LVariable k v r \<in> set ls"
  using parseLoop_vars[of k v r cs initialState ls]
  by (auto simp: parseBlocks_def finish_def initialState_def split: if_splits)

lemma parseLine_raw: "parseLine l = LVariable k v r \<Longrightarrow> r = l"
  by (auto simp: parseLine_def Let_def split: if_splits option.splits)

lemma parseEnvFile_raw:
  assumes "b \<in> set (parseEnvFile text)" and "isVariableBlock b"
  shows "raw b \<in> set (splitLines text) \<and> parseLine (raw b) = LVariable (key b) (val b) (raw b)"
proof -
  from assms(2) obtain k v r cs where b: "b = VariableBlock k v r cs"
    by (cases b) auto
  with assms(1) have "VariableBlock k v r cs \<in> set (parseBlocks (map parseLine (splitLines text)))"
    by (simp add: parseEnvFile_def)
  then have "LVariable k v r \<in> set (map parseLine (splitLines text))"
    by (rule parseBlocks_vars)
  then obtain l where l: "l \<in> set (splitLines text)" "parseLine l = LVariable k v r"
    by auto
  with parseLine_raw[OF l(2)] b show ?thesis by simp
qed

lemma set_insertBefore: "set (insertBefore head p c) = insert c (set head)"
proof -
  have "set (take p head) \<union> set (drop p head) = set head"
    by (metis append_take_drop_id set_append)
  then show ?thesis by (auto simp: insertBefore_def)
qed

lemma mergeVariables_all:
  assumes "\<And>b. b \<in> set head \<Longrightarrow> Q b"
    and "\<And>b. b \<in> set src \<Longrightarrow> Q b"
    and "\<And>h d. Q (overrideBlock h d)"
  shows "b \<in> set (mergeVariables head src) \<Longrightarrow> Q b"
  using assms(1,2)
proof (induction src arbitrary: head)
  case Nil
  then show ?case by simp
next
  case (Cons current rest)
  show ?case
  proof (cases "isVariableBlock current")
    case False
    then show ?thesis using Cons by simp
  next
    case var: True
    show ?thesis
    proof (cases "findVariableBlock head (key current)")
      case (Some i)
      have "\<And>x. x \<in> set (head[i := overrideBlock (head ! i) current]) \<Longrightarrow> Q x"
        using Cons.prems(2) assms(3) set_update_subset_insert[of head i] by blast
      then show ?thesis using Cons.IH Cons.prems var Some by simp
    next
      case None
      show ?thesis
      proof (cases "findIntersectionPoint rest head")
        case (Some p)
        have "\<And>x. x \<in> set (insertBefore head p current) \<Longrightarrow> Q x"
          using Cons.prems by (auto simp: set_insertBefore)
        then show ?thesis using Cons.IH Cons.prems var None Some by simp
      next
        case np: None
        have "\<And>x. x \<in> set (appendToTail head current) \<Longrightarrow> Q x"
          using Cons.prems by (auto simp: appendToTail_def)
        then show ?thesis using Cons.IH Cons.prems var None np by simp
      qed
    qed
  qed
qed

lemma set_insertCommentBlock: "set (insertCommentBlock head c behind) \<subseteq> insert c (set head)"
  by (auto simp: insertCommentBlock_def appendComment_def appendToTail_def set_insertBefore
      split: option.splits if_splits)

lemma mergeComments_all:
  assumes "\<And>b. b \<in> set head \<Longrightarrow> Q b"
    and "\<And>b. b \<in> set src \<Longrightarrow> Q b"
  shows "b \<in> set (mergeComments head src) \<Longrightarrow> Q b"
  using assms
proof (induction src arbitrary: head)
  case Nil
  then show ?case by simp
next
  case (Cons current rest)
  show ?case
  proof (cases "isCommentBlock current")
    case False
    then show ?thesis using Cons by simp
  next
    case True
    have "\<And>x. x \<in> set (insertCommentBlock head current rest) \<Longrightarrow> Q x"
      using Cons.prems(2,3) set_insertCommentBlock[of head current rest] by auto
    then show ?thesis using Cons.IH Cons.prems True by simp
  qed
qed

lemma mergeTwo_all:
  assumes "\<And>b. b \<in> set base \<Longrightarrow> Q b"
    and "\<And>b. b \<in> set source \<Longrightarrow> Q b"
    and "\<And>h d. Q (overrideBlock h d)"
    and "b \<in> set (mergeTwo base source)"
  shows "Q b"
proof -
  have "\<And>x. x \<in> set (mergeVariables base source) \<Longrightarrow> Q x"
    using assms(1-3) by (rule mergeVariables_all)
  then show ?thesis
    using assms(2,4) unfolding mergeTwo_def by (rule mergeComments_all)
qed

lemma foldl_mergeTwo_all:
  assumes "\<And>h d. Q (overrideBlock h d)"
  shows "\<forall>b\<in>set base. Q b \<Longrightarrow> \<forall>d\<in>set docs. \<forall>b\<in>set d. Q b \<Longrightarrow>
         \<forall>b\<in>set (foldl mergeTwo base docs). Q b"
proof (induction docs arbitrary: base)
  case Nil
  then show ?case by simp
next
  case (Cons d docs)
  have "\<forall>x\<in>set (mergeTwo base d). Q x"
  proof
    fix x
    assume x: "x \<in> set (mergeTwo base d)"
    show "Q x"
    proof (rule mergeTwo_all[where Q = Q and base = base and source = d])
      show "\<And>b. b \<in> set base \<Longrightarrow> Q b" using Cons.prems(1) by simp
      show "\<And>b. b \<in> set d \<Longrightarrow> Q b" using Cons.prems(2) by simp
      show "\<And>h d. Q (overrideBlock h d)" by (rule assms)
      show "x \<in> set (mergeTwo base d)" by (rule x)
    qed
  qed
  then show ?case using Cons.IH[of "mergeTwo base d"] Cons.prems(2) by simp
qed

lemma mergeSources_all:
  assumes "\<And>h d. Q (overrideBlock h d)"
    and "\<And>d b. d \<in> set docs \<Longrightarrow> b \<in> set d \<Longrightarrow> Q b"
    and "b \<in> set (mergeSources docs)"
  shows "Q b"
proof (cases "filter (\<lambda>s. s \<noteq> []) docs")
  case Nil
  then show ?thesis using assms(3) by (simp add: mergeSources_def)
next
  case (Cons first others)
  have sub: "set (first # others) \<subseteq> set docs"
    using Cons by (metis filter_is_subset)
  have in_fold: "b \<in> set (foldl mergeTwo first others)"
    using assms(3) Cons by (simp add: mergeSources_def)
  have "\<forall>x\<in>set first. Q x" using sub assms(2) by auto
  moreover have "\<forall>d\<in>set others. \<forall>x\<in>set d. Q x" using sub assms(2) by auto
  ultimately have "\<forall>x\<in>set (foldl mergeTwo first others). Q x"
    using assms(1) by (rule foldl_mergeTwo_all[where Q = Q, rotated])
  then show ?thesis using in_fold by simp
qed

lemma overrideBlock_raw:
  "raw (overrideBlock h d) = key (overrideBlock h d) @ EQUALS # quoteValue (val (overrideBlock h d))"
  by (simp add: overrideBlock_def)

text \<open>
  Claim C8, as stated, at the input \<open>"K = 1"\<close>: the raw field of the parsed block is the
  line \<open>"K = 1"\<close>, and the serializable form of the block is \<open>"K=1"\<close>.
\<close>

theorem raw_is_source_line:
  "parseEnvFile (js ''K = 1'') = [VariableBlock (js ''K'') (js ''1'') (js ''K = 1'') []] \<and>
   js ''K'' @ EQUALS # quoteValue (js ''1'') = js ''K=1'' \<and>
   js ''K = 1'' \<noteq> js ''K=1''"
  by (simp add: parser_defs string_defs char_defs)

section \<open>Where new variables go, and the order of the variables\<close>

lemma varKeys_simps [simp]:
  "varKeys [] = []"
  "varKeys (b # bs) = (if isVariableBlock b then key b # varKeys bs else varKeys bs)"
  "varKeys (xs @ ys) = varKeys xs @ varKeys ys"
  by (simp_all add: varKeys_def)

lemma findVariableBlock_varKeys: "findVariableBlock head k = None \<longleftrightarrow> k \<notin> set (varKeys head)"
  by (induction head) auto

lemma findVariableBlock_split:
  "findVariableBlock head k = Some p \<Longrightarrow>
   take p head = takeWhile (\<lambda>b. \<not> isDefinition k b) head \<and>
   drop p head = dropWhile (\<lambda>b. \<not> isDefinition k b) head"
  by (induction head arbitrary: p) (auto simp: isDefinition_def split: if_splits)

lemma varKeys_takeWhile:
  "varKeys (takeWhile (\<lambda>b. \<not> isDefinition k b) head) = takeWhile (\<lambda>x. x \<noteq> k) (varKeys head)"
  by (induction head) (auto simp: isDefinition_def)

lemma varKeys_dropWhile:
  "varKeys (dropWhile (\<lambda>b. \<not> isDefinition k b) head) = dropWhile (\<lambda>x. x \<noteq> k) (varKeys head)"
  by (induction head) (auto simp: isDefinition_def)

lemma insertBefore_found:
  assumes "findVariableBlock head k = Some p"
  shows "insertBefore head p v =
           takeWhile (\<lambda>b. \<not> isDefinition k b) head @ v # dropWhile (\<lambda>b. \<not> isDefinition k b) head"
  using findVariableBlock_split[OF assms] findVariableBlock_Some[OF assms]
  by (auto simp: insertBefore_def)

lemma varKeys_insertBefore:
  assumes "findVariableBlock head k = Some p" and "isVariableBlock v"
  shows "varKeys (insertBefore head p v) =
           takeWhile (\<lambda>x. x \<noteq> k) (varKeys head) @ key v # dropWhile (\<lambda>x. x \<noteq> k) (varKeys head)"
  using assms(2) by (simp add: insertBefore_found[OF assms(1)] varKeys_takeWhile varKeys_dropWhile)

lemma varKeys_update:
  "i < length xs \<Longrightarrow> isVariableBlock (xs ! i) \<Longrightarrow> isVariableBlock x \<Longrightarrow> key x = key (xs ! i) \<Longrightarrow>
   varKeys (xs[i := x]) = varKeys xs"
proof (induction xs arbitrary: i)
  case Nil
  then show ?case by simp
next
  case (Cons a xs)
  then show ?case by (cases i) auto
qed

lemma varKeys_override:
  assumes "findVariableBlock head k = Some i"
  shows "varKeys (head[i := overrideBlock (head ! i) d]) = varKeys head"
  using findVariableBlock_Some[OF assms]
  by (intro varKeys_update) (auto simp: isDefinition_def overrideBlock_def)

text \<open>The intersection point, read on the keys.\<close>

lemma findIntersectionPoint_Some:
  "findIntersectionPoint rest head = Some p \<Longrightarrow>
   \<exists>k' A B. findVariableBlock head k' = Some p \<and> varKeys rest = A @ k' # B \<and>
             set A \<inter> set (varKeys head) = {}"
proof (induction rest)
  case Nil
  then show ?case by simp
next
  case (Cons current rest)
  show ?case
  proof (cases "isVariableBlock current")
    case False
    then show ?thesis using Cons by simp
  next
    case var: True
    show ?thesis
    proof (cases "findVariableBlock head (key current)")
      case None
      then have "findIntersectionPoint rest head = Some p"
        using Cons.prems var by simp
      from Cons.IH[OF this] obtain k' A B where
        *: "findVariableBlock head k' = Some p" "varKeys rest = A @ k' # B"
           "set A \<inter> set (varKeys head) = {}"
        by blast
      have "key current \<notin> set (varKeys head)"
        using None by (simp add: findVariableBlock_varKeys)
      then have "varKeys (current # rest) = (key current # A) @ k' # B \<and>
                 set (key current # A) \<inter> set (varKeys head) = {}"
        using * var by simp
      then show ?thesis using *(1) by blast
    next
      case (Some q)
      then have "q = p" using Cons.prems var by simp
      then have "findVariableBlock head (key current) = Some p \<and>
                 varKeys (current # rest) = [] @ key current # varKeys rest \<and>
                 set [] \<inter> set (varKeys head) = {}"
        using Some var by simp
      then show ?thesis by blast
    qed
  qed
qed

lemma findIntersectionPoint_None:
  "findIntersectionPoint rest head = None \<Longrightarrow> set (varKeys rest) \<inter> set (varKeys head) = {}"
  by (induction rest) (auto simp: findVariableBlock_varKeys split: option.splits if_splits)

text \<open>The order of the keys, on lists.\<close>

lemma filter_same: "(\<And>x. x \<in> set X \<Longrightarrow> P x = Q x) \<Longrightarrow> filter P X = filter Q X"
  by (rule filter_cong) auto

lemma filter_none: "(\<And>x. x \<in> set X \<Longrightarrow> \<not> P x) \<Longrightarrow> filter P X = []"
  by (induction X) auto

lemma first_occurrence_unique:
  "x \<notin> set xs \<Longrightarrow> x \<notin> set xs' \<Longrightarrow> xs @ x # ys = xs' @ x # ys' \<Longrightarrow> xs = xs' \<and> ys = ys'"
proof (induction xs arbitrary: xs')
  case Nil
  then show ?case by (cases xs') auto
next
  case (Cons a xs)
  then show ?case by (cases xs') auto
qed

lemma order_insert:
  assumes inv: "filter (\<lambda>x. x \<in> set S) K = filter (\<lambda>x. x \<in> set K) S"
    and S: "S = S1 @ k # A @ k' # B"
    and d: "distinct S"
    and k: "k \<notin> set K"
    and A: "set A \<inter> set K = {}"
    and k': "k' \<in> set K"
  shows "filter (\<lambda>x. x \<in> set S) (takeWhile (\<lambda>x. x \<noteq> k') K @ k # dropWhile (\<lambda>x. x \<noteq> k') K)
           = filter (\<lambda>x. x \<in> insert k (set K)) S"
proof -
  define inS where "inS = (\<lambda>x. x \<in> set S)"
  define inK where "inK = (\<lambda>x. x \<in> set K)"
  define inK' where "inK' = (\<lambda>x. x \<in> insert k (set K))"
  define K1 where "K1 = takeWhile (\<lambda>x. x \<noteq> k') K"
  define K2 where "K2 = dropWhile (\<lambda>x. x \<noteq> k') K"
  have "K2 \<noteq> []"
    using k' unfolding K2_def by (simp add: dropWhile_eq_Nil_conv)
  moreover have "K2 \<noteq> [] \<Longrightarrow> hd K2 = k'"
    unfolding K2_def using hd_dropWhile[of "\<lambda>x. x \<noteq> k'" K] by simp
  ultimately obtain K2' where K2: "K2 = k' # K2'"
    by (cases K2) auto
  have K: "K = K1 @ k' # K2'"
    using K2 takeWhile_dropWhile_id[of "\<lambda>x. x \<noteq> k'" K] by (simp add: K1_def K2_def)
  have k'K1: "k' \<notin> set K1"
    unfolding K1_def using set_takeWhileD[of k' "\<lambda>x. x \<noteq> k'" K] by blast
  have mem: "inS k" "inS k'" "inK k'" "\<not> inK k" "inK' k" "inK' k'"
    using S k k' by (auto simp: inS_def inK_def inK'_def)
  have notk: "k \<notin> set S1" "k \<notin> set A" "k \<notin> set B" "k' \<notin> set S1"
    using d S by auto
  have left: "filter inS K = filter inS K1 @ k' # filter inS K2'"
    using mem by (subst K) simp
  have "filter inK A = []"
    using A by (intro filter_none) (auto simp: inK_def)
  then have right: "filter inK S = filter inK S1 @ k' # filter inK B"
    using mem by (simp add: S)
  have "filter inS K = filter inK S"
    using inv by (simp add: inS_def inK_def)
  then have eq: "filter inS K1 @ k' # filter inS K2' = filter inK S1 @ k' # filter inK B"
    using left right by simp
  have n1: "k' \<notin> set (filter inS K1)" and n2: "k' \<notin> set (filter inK S1)"
    using k'K1 notk by auto
  have p1: "filter inS K1 = filter inK S1" and p2: "filter inS K2' = filter inK B"
    using first_occurrence_unique[OF n1 n2 eq] by simp_all
  have s1: "filter inK' S1 = filter inK S1"
    using notk by (auto intro!: filter_same simp: inK'_def inK_def)
  have s2: "filter inK' B = filter inK B"
    using notk by (auto intro!: filter_same simp: inK'_def inK_def)
  have "filter inK' A = []"
    using A notk by (intro filter_none) (auto simp: inK'_def)
  then have r: "filter inK' S = filter inK S1 @ k # k' # filter inK B"
    using mem s1 s2 by (simp add: S)
  have l: "filter inS (K1 @ k # K2) = filter inS K1 @ k # k' # filter inS K2'"
    using mem by (simp add: K2)
  have "filter inS (K1 @ k # K2) = filter inK' S"
    unfolding l r p1 p2 by (rule refl)
  then show ?thesis
    by (simp add: inS_def inK'_def K1_def K2_def)
qed

lemma order_append:
  assumes inv: "filter (\<lambda>x. x \<in> set S) K = filter (\<lambda>x. x \<in> set K) S"
    and S: "S = S1 @ k # S2"
    and d: "distinct S"
    and k: "k \<notin> set K"
    and S2: "set S2 \<inter> set K = {}"
  shows "filter (\<lambda>x. x \<in> set S) (K @ [k]) = filter (\<lambda>x. x \<in> insert k (set K)) S"
proof -
  define inS where "inS = (\<lambda>x. x \<in> set S)"
  define inK where "inK = (\<lambda>x. x \<in> set K)"
  define inK' where "inK' = (\<lambda>x. x \<in> insert k (set K))"
  have notk: "k \<notin> set S1" "k \<notin> set S2"
    using d S by auto
  have mem: "inS k" "\<not> inK k" "inK' k"
    using S k by (auto simp: inS_def inK_def inK'_def)
  have "filter inK S2 = []"
    using S2 by (intro filter_none) (auto simp: inK_def)
  then have right: "filter inK S = filter inK S1"
    using mem by (simp add: S)
  have "filter inK' S2 = []"
    using S2 notk by (intro filter_none) (auto simp: inK'_def)
  moreover have "filter inK' S1 = filter inK S1"
    using notk by (auto intro!: filter_same simp: inK'_def inK_def)
  ultimately have "filter inK' S = filter inK S1 @ [k]"
    using mem by (simp add: S)
  moreover have "filter inS K = filter inK S"
    using inv by (simp add: inS_def inK_def)
  ultimately have "filter inS (K @ [k]) = filter inK' S"
    using mem right by simp
  then show ?thesis
    by (simp add: inS_def inK'_def)
qed


lemma set_varKeys_insertBefore:
  assumes "findVariableBlock head k = Some p" and "isVariableBlock v"
  shows "set (varKeys (insertBefore head p v)) = insert (key v) (set (varKeys head))"
proof -
  have "set (takeWhile (\<lambda>x. x \<noteq> k) (varKeys head)) \<union> set (dropWhile (\<lambda>x. x \<noteq> k) (varKeys head))
          = set (varKeys head)"
    by (metis set_append takeWhile_dropWhile_id)
  then show ?thesis
    unfolding varKeys_insertBefore[OF assms] by auto
qed

lemma mergeVariables_order:
  assumes "distinct (P @ varKeys src)"
    and "set P \<subseteq> set (varKeys head)"
    and "filter (\<lambda>x. x \<in> set (P @ varKeys src)) (varKeys head)
           = filter (\<lambda>x. x \<in> set (varKeys head)) (P @ varKeys src)"
  shows "filter (\<lambda>x. x \<in> set (P @ varKeys src)) (varKeys (mergeVariables head src))
           = P @ varKeys src"
  using assms
proof (induction src arbitrary: head P)
  case Nil
  have "filter (\<lambda>x. x \<in> set (varKeys head)) P = P"
    using Nil.prems(2) by (auto intro: filter_True)
  then show ?case using Nil.prems(3) by simp
next
  case (Cons current rest)
  show ?case
  proof (cases "isVariableBlock current")
    case False
    then show ?thesis using Cons.IH[of P head] Cons.prems by simp
  next
    case var: True
    let ?k = "key current"
    let ?S = "P @ ?k # varKeys rest"
    have S: "P @ varKeys (current # rest) = ?S" "(P @ [?k]) @ varKeys rest = ?S"
      using var by simp_all
    have d: "distinct ?S" using Cons.prems(1) var by simp
    have inv: "filter (\<lambda>x. x \<in> set ?S) (varKeys head) = filter (\<lambda>x. x \<in> set (varKeys head)) ?S"
      using Cons.prems(3) unfolding S(1) .
    have goal: "filter (\<lambda>x. x \<in> set ?S) (varKeys (mergeVariables head' rest)) = ?S"
      if sub: "set (P @ [?k]) \<subseteq> set (varKeys head')"
        and inv': "filter (\<lambda>x. x \<in> set ?S) (varKeys head')
                     = filter (\<lambda>x. x \<in> set (varKeys head')) ?S"
      for head'
      using Cons.IH[of "P @ [?k]" head'] d sub inv' unfolding S(2) by blast
    show ?thesis
    proof (cases "findVariableBlock head ?k")
      case (Some i)
      let ?h' = "head[i := overrideBlock (head ! i) current]"
      have keys: "varKeys ?h' = varKeys head"
        by (rule varKeys_override[OF Some])
      have "?k \<in> set (varKeys head)"
        using Some findVariableBlock_varKeys[of head ?k] by auto
      then have "set (P @ [?k]) \<subseteq> set (varKeys ?h')"
        using Cons.prems(2) keys by simp
      from goal[OF this] inv keys
      have "filter (\<lambda>x. x \<in> set ?S) (varKeys (mergeVariables ?h' rest)) = ?S"
        by simp
      then show ?thesis using var Some unfolding S(1) by simp
    next
      case None
      have k: "?k \<notin> set (varKeys head)"
        using None by (simp add: findVariableBlock_varKeys)
      show ?thesis
      proof (cases "findIntersectionPoint rest head")
        case (Some p)
        let ?h' = "insertBefore head p current"
        from findIntersectionPoint_Some[OF Some] obtain k' A B where
          *: "findVariableBlock head k' = Some p" "varKeys rest = A @ k' # B"
             "set A \<inter> set (varKeys head) = {}"
          by blast
        have k': "k' \<in> set (varKeys head)"
          using *(1) findVariableBlock_varKeys[of head k'] by auto
        have keys: "varKeys ?h' = takeWhile (\<lambda>x. x \<noteq> k') (varKeys head) @ ?k
                       # dropWhile (\<lambda>x. x \<noteq> k') (varKeys head)"
          by (rule varKeys_insertBefore[OF *(1) var])
        have setk: "set (varKeys ?h') = insert ?k (set (varKeys head))"
          by (rule set_varKeys_insertBefore[OF *(1) var])
        have "filter (\<lambda>x. x \<in> set ?S) (varKeys ?h')
                = filter (\<lambda>x. x \<in> insert ?k (set (varKeys head))) ?S"
          unfolding keys
          by (rule order_insert[where ?S1.0 = P and A = A and B = B])
            (use inv d k k' * in simp_all)
        then have inv': "filter (\<lambda>x. x \<in> set ?S) (varKeys ?h')
                           = filter (\<lambda>x. x \<in> set (varKeys ?h')) ?S"
          unfolding setk .
        have "set (P @ [?k]) \<subseteq> set (varKeys ?h')"
          using Cons.prems(2) setk by auto
        from goal[OF this inv'] show ?thesis
          using var None Some unfolding S(1) by simp
      next
        case np: None
        let ?h' = "appendToTail head current"
        have keys: "varKeys ?h' = varKeys head @ [?k]"
          using var by (simp add: appendToTail_def)
        have "filter (\<lambda>x. x \<in> set ?S) (varKeys head @ [?k])
                = filter (\<lambda>x. x \<in> insert ?k (set (varKeys head))) ?S"
          by (rule order_append[where ?S1.0 = P and ?S2.0 = "varKeys rest"])
            (use inv d k findIntersectionPoint_None[OF np] in simp_all)
        then have inv': "filter (\<lambda>x. x \<in> set ?S) (varKeys ?h')
                           = filter (\<lambda>x. x \<in> set (varKeys ?h')) ?S"
          unfolding keys by simp
        have "set (P @ [?k]) \<subseteq> set (varKeys ?h')"
          using Cons.prems(2) keys by auto
        from goal[OF this inv'] show ?thesis
          using var None np unfolding S(1) by simp
      qed
    qed
  qed
qed

lemma varKeys_insertCommentBlock:
  "isCommentBlock c \<Longrightarrow> varKeys (insertCommentBlock head c behind) = varKeys head"
proof -
  assume c: "isCommentBlock c"
  then have nv: "\<not> isVariableBlock c" by (cases c) auto
  have "varKeys (insertBefore head p c) = varKeys head" for p
  proof -
    have "varKeys (take p head) @ varKeys (drop p head) = varKeys head"
      by (metis append_take_drop_id varKeys_simps(3))
    then show ?thesis using nv by (simp add: insertBefore_def)
  qed
  then show ?thesis
    using nv by (simp add: insertCommentBlock_def appendComment_def appendToTail_def
        split: option.splits)
qed

lemma varKeys_mergeComments: "varKeys (mergeComments head src) = varKeys head"
  by (induction src arbitrary: head) (auto simp: varKeys_insertCommentBlock)

lemma mergeTwo_source_order:
  assumes "distinct (varKeys source)"
    and "filter (\<lambda>x. x \<in> set (varKeys source)) (varKeys base)
           = filter (\<lambda>x. x \<in> set (varKeys base)) (varKeys source)"
  shows "filter (\<lambda>x. x \<in> set (varKeys source)) (varKeys (mergeTwo base source)) = varKeys source"
  using mergeVariables_order[of "[]" source base] assms
  by (simp add: mergeTwo_def varKeys_mergeComments)

lemma subseq_insert: "subseq (xs @ ys) (xs @ x # ys)"
  by (induction xs) auto

lemma mergeVariables_base_order: "subseq (varKeys head) (varKeys (mergeVariables head src))"
proof (induction src arbitrary: head)
  case Nil
  show ?case by simp
next
  case (Cons current rest)
  show ?case
  proof (cases "isVariableBlock current")
    case False
    then show ?thesis using Cons.IH by simp
  next
    case var: True
    show ?thesis
    proof (cases "findVariableBlock head (key current)")
      case (Some i)
      then show ?thesis
        using var Cons.IH[of "head[i := overrideBlock (head ! i) current]"]
        by (simp add: varKeys_override)
    next
      case None
      show ?thesis
      proof (cases "findIntersectionPoint rest head")
        case (Some p)
        have "varKeys (take p head) @ varKeys (drop p head) = varKeys head"
          by (metis append_take_drop_id varKeys_simps(3))
        then have "subseq (varKeys head) (varKeys (insertBefore head p current))"
          using var subseq_insert[of "varKeys (take p head)" "varKeys (drop p head)" "key current"]
          by (auto simp: insertBefore_def)
        then show ?thesis
          using var None Some Cons.IH[of "insertBefore head p current"]
          by (auto intro: subseq_order.trans)
      next
        case np: None
        have "subseq (varKeys head) (varKeys (appendToTail head current))"
          using subseq_insert[of "varKeys head" "[]" "key current"]
          by (simp add: appendToTail_def)
        then show ?thesis
          using var None np Cons.IH[of "appendToTail head current"]
          by (auto intro: subseq_order.trans)
      qed
    qed
  qed
qed

lemma mergeTwo_base_order: "subseq (varKeys base) (varKeys (mergeTwo base source))"
  by (simp add: mergeTwo_def varKeys_mergeComments mergeVariables_base_order)

lemma findIntersectionPoint_find:
  "findIntersectionPoint rest head =
     (case find (\<lambda>w. isVariableBlock w \<and> findVariableBlock head (key w) \<noteq> None) rest of
        None \<Rightarrow> None
      | Some w \<Rightarrow> findVariableBlock head (key w))"
  by (induction rest) (auto split: option.splits)

lemma mergeVariables_new_key:
  assumes "isVariableBlock v" and "findVariableBlock head (key v) = None"
  shows "mergeVariables head (v # rest) =
           mergeVariables
             (case find (\<lambda>w. isVariableBlock w \<and> findVariableBlock head (key w) \<noteq> None) rest of
                None \<Rightarrow> head @ [v]
              | Some w \<Rightarrow> takeWhile (\<lambda>b. \<not> isDefinition (key w) b) head @ v
                            # dropWhile (\<lambda>b. \<not> isDefinition (key w) b) head)
             rest"
proof (cases "find (\<lambda>w. isVariableBlock w \<and> findVariableBlock head (key w) \<noteq> None) rest")
  case None
  then show ?thesis
    using assms by (simp add: findIntersectionPoint_find appendToTail_def)
next
  case (Some w)
  then have "findVariableBlock head (key w) \<noteq> None"
    by (auto dest: find_Some_iff[THEN iffD1])
  then obtain p where p: "findVariableBlock head (key w) = Some p" by auto
  then show ?thesis
    using assms Some by (simp add: findIntersectionPoint_find insertBefore_found[OF p])
qed

text \<open>
  Claim C4, amended. One turn of the first loop of \<open>mergeTwo\<close>, at a variable \<open>v\<close> of
  source whose key the chain does not know: scanning source forward from \<open>v\<close>, the first
  variable \<open>w\<close> whose key the chain knows decides the place, and a copy of \<open>v\<close> is
  spliced immediately before the first block of the chain that has the key of \<open>w\<close>;
  with no such \<open>w\<close> the copy becomes the tail. Consequently the variables of base keep
  their relative order in the merged document; and when the keys of source are pairwise
  different and the keys that base and source share come in the same relative order in
  both, the variables of source appear in the merged document in their order in source.
\<close>

theorem new_key_insertion:
  "(isVariableBlock v \<and> findVariableBlock head (key v) = None \<longrightarrow>
      mergeVariables head (v # rest) =
        mergeVariables
          (case find (\<lambda>w. isVariableBlock w \<and> findVariableBlock head (key w) \<noteq> None) rest of
             None \<Rightarrow> head @ [v]
           | Some w \<Rightarrow> takeWhile (\<lambda>b. \<not> isDefinition (key w) b) head @ v
                         # dropWhile (\<lambda>b. \<not> isDefinition (key w) b) head)
          rest) \<and>
   subseq (varKeys base) (varKeys (mergeTwo base source)) \<and>
   (distinct (varKeys source) \<and>
    filter (\<lambda>x. x \<in> set (varKeys source)) (varKeys base)
      = filter (\<lambda>x. x \<in> set (varKeys base)) (varKeys source) \<longrightarrow>
      filter (\<lambda>x. x \<in> set (varKeys source)) (varKeys (mergeTwo base source)) = varKeys source)"
  using mergeVariables_new_key mergeTwo_base_order mergeTwo_source_order by blast

lemma parse_XY: "parseEnvFile (js ''X=1\<newline>Y=2'') =
   [VariableBlock (js ''X'') (js ''1'') (js ''X=1'') [],
    VariableBlock (js ''Y'') (js ''2'') (js ''Y=2'') []]"
  by (simp add: parser_defs string_defs char_defs)

lemma parse_AYB: "parseEnvFile (js ''A=1\<newline>Y=3\<newline>B=4'') =
   [VariableBlock (js ''A'') (js ''1'') (js ''A=1'') [],
    VariableBlock (js ''Y'') (js ''3'') (js ''Y=3'') [],
    VariableBlock (js ''B'') (js ''4'') (js ''B=4'') []]"
  by (simp add: parser_defs string_defs char_defs)

lemma parse_AYBX: "parseEnvFile (js ''A=1\<newline>Y=2\<newline>B=3\<newline>X=4'') =
   [VariableBlock (js ''A'') (js ''1'') (js ''A=1'') [],
    VariableBlock (js ''Y'') (js ''2'') (js ''Y=2'') [],
    VariableBlock (js ''B'') (js ''3'') (js ''B=3'') [],
    VariableBlock (js ''X'') (js ''4'') (js ''X=4'') []]"
  by (simp add: parser_defs string_defs char_defs)

theorem new_key_insertion_witness:
  "isVariableBlock (VariableBlock (js ''A'') (js ''1'') (js ''A=1'') []) \<and>
   findVariableBlock (parseEnvFile (js ''X=1\<newline>Y=2'')) (js ''A'') = None \<and>
   mergeVariables (parseEnvFile (js ''X=1\<newline>Y=2''))
     (VariableBlock (js ''A'') (js ''1'') (js ''A=1'') []
        # [VariableBlock (js ''Y'') (js ''3'') (js ''Y=3'') [],
           VariableBlock (js ''B'') (js ''4'') (js ''B=4'') []])
     = [VariableBlock (js ''X'') (js ''1'') (js ''X=1'') [],
        VariableBlock (js ''A'') (js ''1'') (js ''A=1'') [],
        VariableBlock (js ''Y'') (js ''3'') (js ''Y=3'') [],
        VariableBlock (js ''B'') (js ''4'') (js ''B=4'') []] \<and>
   distinct (varKeys (parseEnvFile (js ''A=1\<newline>Y=3\<newline>B=4''))) \<and>
   varKeys (mergeTwo (parseEnvFile (js ''X=1\<newline>Y=2'')) (parseEnvFile (js ''A=1\<newline>Y=3\<newline>B=4'')))
     = [js ''X'', js ''A'', js ''Y'', js ''B'']"
  using new_key_insertion[of "VariableBlock (js ''A'') (js ''1'') (js ''A=1'') []"
      "parseEnvFile (js ''X=1\<newline>Y=2'')"
      "[VariableBlock (js ''Y'') (js ''3'') (js ''Y=3'') [],
        VariableBlock (js ''B'') (js ''4'') (js ''B=4'') []]"
      "parseEnvFile (js ''X=1\<newline>Y=2'')" "parseEnvFile (js ''A=1\<newline>Y=3\<newline>B=4'')"]
  unfolding parse_XY parse_AYB
  by (simp add: merger_defs parser_defs string_defs char_defs isDefinition_def)

text \<open>
  Claim C4, as stated, at base \<open>"X=1\nY=2"\<close> and source \<open>"A=1\nY=2\nB=3\nX=4"\<close>: the
  variables \<open>A\<close> and \<open>B\<close> are in source only, \<open>A\<close> before \<open>B\<close>; in the merged
  document \<open>B\<close> comes before \<open>A\<close>.
\<close>

theorem source_order_reversed:
  "varKeys (parseEnvFile (js ''A=1\<newline>Y=2\<newline>B=3\<newline>X=4''))
     = [js ''A'', js ''Y'', js ''B'', js ''X''] \<and>
   varKeys (mergeSources [parseEnvFile (js ''X=1\<newline>Y=2''),
                          parseEnvFile (js ''A=1\<newline>Y=2\<newline>B=3\<newline>X=4'')])
     = [js ''B'', js ''X'', js ''A'', js ''Y'']"
  unfolding parse_XY parse_AYBX
  by (simp add: merger_defs parser_defs string_defs char_defs)

section \<open>Quoting, decoding and the round trip\<close>

lemma encodeWith_simps [simp]:
  "encodeWith cs [] = []"
  "encodeWith cs (x # xs) = escapeWith cs x @ encodeWith cs xs"
  by (simp_all add: encodeWith_def)

lemma replaceChar_append:
  "replaceChar c r (xs @ ys) = replaceChar c r xs @ replaceChar c r ys"
  by (induction xs) auto

lemma escape_append: "escape (xs @ ys) = escape xs @ escape ys"
  by (simp add: escape_def replaceChar_append)

lemma escape_single: "escape [x] = escapeWith [BACKSLASH, DQUOTE, LF, CR, TAB] x"
  by (simp add: escape_def escapeWith_def codeOf_def char_defs)

lemma escape_encodeWith: "escape v = encodeWith [BACKSLASH, DQUOTE, LF, CR, TAB] v"
proof (induction v)
  case Nil
  show ?case by (simp add: escape_def)
next
  case (Cons x v)
  have "escape (x # v) = escape [x] @ escape v"
    using escape_append[of "[x]" v] by simp
  then show ?case using Cons.IH by (simp add: escape_single)
qed

lemma undo_newline:
  "\<not> adjacent BACKSLASH LOWER_N v \<Longrightarrow>
   replacePair BACKSLASH LOWER_N [LF] (encodeWith [BACKSLASH, DQUOTE, LF, CR, TAB] v)
     = encodeWith [BACKSLASH, DQUOTE, CR, TAB] v"
  by (induction BACKSLASH LOWER_N v rule: adjacent.induct)
    (auto simp: escapeWith_def codeOf_def char_defs)

lemma undo_return:
  "\<not> adjacent BACKSLASH LOWER_R v \<Longrightarrow>
   replacePair BACKSLASH LOWER_R [CR] (encodeWith [BACKSLASH, DQUOTE, CR, TAB] v)
     = encodeWith [BACKSLASH, DQUOTE, TAB] v"
  by (induction BACKSLASH LOWER_R v rule: adjacent.induct)
    (auto simp: escapeWith_def codeOf_def char_defs)

lemma undo_tab:
  "\<not> adjacent BACKSLASH LOWER_T v \<Longrightarrow>
   replacePair BACKSLASH LOWER_T [TAB] (encodeWith [BACKSLASH, DQUOTE, TAB] v)
     = encodeWith [BACKSLASH, DQUOTE] v"
  by (induction BACKSLASH LOWER_T v rule: adjacent.induct)
    (auto simp: escapeWith_def codeOf_def char_defs)

lemma undo_backslash:
  "replacePair BACKSLASH BACKSLASH [BACKSLASH] (encodeWith [BACKSLASH, DQUOTE] v)
     = encodeWith [DQUOTE] v"
  by (induction BACKSLASH BACKSLASH v rule: adjacent.induct)
    (auto simp: escapeWith_def codeOf_def char_defs)

lemma undo_quote:
  "replacePair BACKSLASH DQUOTE [DQUOTE] (encodeWith [DQUOTE] v) = v"
  by (induction BACKSLASH DQUOTE v rule: adjacent.induct)
    (auto simp: escapeWith_def codeOf_def char_defs)

lemma unescape_escape: "\<not> hasAmbiguousEscape v \<Longrightarrow> unescape (escape v) = v"
  by (simp add: unescape_def escape_encodeWith hasAmbiguousEscape_def
      undo_newline undo_return undo_tab undo_backslash undo_quote)

lemma trim_id:
  assumes "s \<noteq> []" and "\<not> isWhitespace (hd s)" and "\<not> isWhitespace (last s)"
  shows "trim s = s"
proof -
  have "dropWhile isWhitespace s = s"
    using assms(1,2) by (cases s) auto
  moreover have "dropWhile isWhitespace (rev s) = rev s"
    using assms(1,3) by (cases "rev s") (auto simp: last_rev[symmetric] hd_rev)
  ultimately show ?thesis by (simp add: trim_def)
qed

lemma slice_strip: "slice (a # e @ [b]) 1 (- 1) = e"
  by (simp add: slice_def)

lemma DQUOTE_not_whitespace: "\<not> isWhitespace DQUOTE"
  by (simp add: isWhitespace_def isLineTerminator_def char_defs)

lemma unquoteValue_quoted:
  "unquoteValue (DQUOTE # e @ [DQUOTE]) = unescape e"
proof -
  have "trim (DQUOTE # e @ [DQUOTE]) = DQUOTE # e @ [DQUOTE]"
    by (rule trim_id) (simp_all add: DQUOTE_not_whitespace)
  moreover have "DQUOTE \<noteq> SQUOTE" by (simp add: char_defs)
  ultimately show ?thesis
    by (simp add: unquoteValue_def startsWith_def endsWith_def slice_strip)
qed

lemma unquoteValue_bare:
  assumes "\<not> needsQuotes v" and "trim v = v"
  shows "unquoteValue v = v"
proof -
  have "SQUOTE \<notin> set v" "DQUOTE \<notin> set v"
    using assms(1) by (auto simp: needsQuotes_def includesChar_def)
  then have "\<not> startsWith v SQUOTE" "\<not> startsWith v DQUOTE"
    by (auto simp: startsWith_def split: list.splits)
  then show ?thesis using assms(2) by (simp add: unquoteValue_def)
qed

lemma unquote_quote: "roundTripSafe v \<Longrightarrow> unquoteValue (quoteValue v) = v"
  by (auto simp: roundTripSafe_def quoteValue_def unquoteValue_quoted unquoteValue_bare
      unescape_escape)

text \<open>Joining lines and splitting the text again.\<close>

lemma splitFrom_no_LF: "LF \<notin> set l \<Longrightarrow> splitFrom piece l = [piece @ l]"
proof (induction l arbitrary: piece)
  case Nil
  show ?case by simp
next
  case (Cons x l)
  then show ?case by (cases l) auto
qed

lemma splitFrom_line:
  assumes "LF \<notin> set l" and "l = [] \<or> last l \<noteq> CR"
  shows "splitFrom piece (l @ LF # rest) = (piece @ l) # splitFrom [] rest"
  using assms
proof (induction l arbitrary: piece)
  case Nil
  show ?case by (cases rest) auto
next
  case (Cons x l)
  show ?case
  proof (cases l)
    case Nil
    then show ?thesis using Cons.prems by (cases rest) auto
  next
    case (Cons y l')
    have "splitFrom (piece @ [x]) (l @ LF # rest) = ((piece @ [x]) @ l) # splitFrom [] rest"
      using Cons.IH[of "piece @ [x]"] Cons.prems Cons by auto
    then show ?thesis using Cons Cons.prems by (auto simp: LF_def CR_def)
  qed
qed

lemma split_join:
  assumes "ls \<noteq> []" and "\<And>l. l \<in> set ls \<Longrightarrow> LF \<notin> set l \<and> (l = [] \<or> last l \<noteq> CR)"
  shows "splitLines (joinLines ls) = ls"
  using assms
proof (induction ls rule: joinLines.induct)
  case 1
  then show ?case by simp
next
  case (2 l)
  then show ?case by (simp add: splitLines_def splitFrom_no_LF)
next
  case (3 l m ls)
  have "splitLines (joinLines (m # ls)) = m # ls"
    using 3 by simp
  then show ?case using "3.prems"(2)[of l] by (simp add: splitLines_def splitFrom_line)
qed

text \<open>
  Claim C3, as stated, at the input line \<open>K='\n'\<close> (a backslash and the letter
  \<open>n\<close> in single quotes): the parsed value is the backslash and the letter, it is
  serialized as \<open>K="\\n"\<close>, and parsing that gives the value backslash, line feed. On
  values: decoding the quoted backslash-\<open>n\<close> gives backslash, line feed; and the value
  that is one vertical tab (U+000B), which is written without quotes, decodes to the empty
  string.
\<close>

theorem round_trip_changes_value:
  "parseEnvFile (js ''K='' @ [SQUOTE, BACKSLASH, LOWER_N, SQUOTE])
     = [VariableBlock (js ''K'') [BACKSLASH, LOWER_N] (js ''K='' @ [SQUOTE, BACKSLASH, LOWER_N, SQUOTE]) []] \<and>
   serializeToString (parseEnvFile (js ''K='' @ [SQUOTE, BACKSLASH, LOWER_N, SQUOTE]))
     = js ''K='' @ [DQUOTE, BACKSLASH, BACKSLASH, LOWER_N, DQUOTE] \<and>
   parseEnvFile (serializeToString (parseEnvFile (js ''K='' @ [SQUOTE, BACKSLASH, LOWER_N, SQUOTE])))
     = [VariableBlock (js ''K'') [BACKSLASH, LF]
          (js ''K='' @ [DQUOTE, BACKSLASH, BACKSLASH, LOWER_N, DQUOTE]) []] \<and>
   unquoteValue (quoteValue [BACKSLASH, LOWER_N]) = [BACKSLASH, LF] \<and>
   unquoteValue (quoteValue [11]) = []"
  by (simp add: parser_defs string_defs char_defs)

lemma serialize_finish:
  "serializeBlocks (finish st) = serializeBlocks (chain st) @ map LComment (pendingComments st)"
  by (simp add: finish_def)

lemma compress_Cons:
  "compress inRun (l # ls) =
     (if l = LEmpty then (if inRun then [] else [LEmpty]) @ compress True ls
      else l # compress False ls)"
  by (cases l) auto

lemma parseStep_serialized:
  assumes "\<And>c. l = LComment c \<Longrightarrow> c \<noteq> []"
  shows "map blankMarker (serializeBlocks (finish (parseStep st l rest)))
           = map blankMarker (serializeBlocks (finish st))
             @ (if l = LEmpty then (if consecutiveEmptyLines st = 0 then [LEmpty] else []) else [l])"
  using assms by (cases l) (auto simp: serialize_finish parseStep_def Let_def)

lemma parseLoop_serialized:
  assumes "\<And>c. LComment c \<in> set ls \<Longrightarrow> c \<noteq> []"
  shows "map blankMarker (serializeBlocks (finish (parseLoop st ls)))
           = map blankMarker (serializeBlocks (finish st)) @ compress (0 < consecutiveEmptyLines st) ls"
  using assms
proof (induction ls arbitrary: st)
  case Nil
  show ?case by simp
next
  case (Cons l ls)
  have l: "\<And>c. l = LComment c \<Longrightarrow> c \<noteq> []"
    using Cons.prems by simp
  have "map blankMarker (serializeBlocks (finish (parseLoop (parseStep st l ls) ls)))
          = map blankMarker (serializeBlocks (finish (parseStep st l ls)))
            @ compress (l = LEmpty) ls"
    using Cons.IH[of "parseStep st l ls"] Cons.prems by (simp add: parseStep_in_run)
  then show ?case
    by (simp only: parseLoop.simps parseStep_serialized[OF l] compress_Cons) auto
qed

lemma parseBlocks_serialized:
  assumes "\<And>c. LComment c \<in> set ls \<Longrightarrow> c \<noteq> []"
  shows "map blankMarker (serializeBlocks (parseBlocks ls)) = compress False ls"
  using parseLoop_serialized[OF assms, where st = initialState]
  by (simp add: parseBlocks_def serialize_finish initialState_def)

lemma lookahead_compress: "isNextNonEmptyComment (compress inRun ls) = isNextNonEmptyComment ls"
  by (induction inRun ls rule: compress.induct) auto

lemma parseLoop_compress:
  "alike (parseLoop st (compress (0 < consecutiveEmptyLines st) ls)) (parseLoop st ls)"
proof (induction ls arbitrary: st)
  case Nil
  show ?case by (simp add: alike_refl)
next
  case (Cons l ls)
  let ?st1 = "parseStep st l ls"
  have run: "(0 < consecutiveEmptyLines ?st1) = (l = LEmpty)"
    by (rule parseStep_in_run)
  have IH: "alike (parseLoop ?st1 (compress (l = LEmpty) ls)) (parseLoop ?st1 ls)"
    using Cons.IH[of ?st1] by (simp add: run)
  show ?case
  proof (cases "l = LEmpty \<and> 0 < consecutiveEmptyLines st")
    case True
    then have "alike ?st1 st"
      using parseStep_blank_again[of st ls] by simp
    then have "alike st ?st1" by (simp add: alike_def)
    then have "alike (parseLoop st (compress True ls)) (parseLoop ?st1 (compress True ls))"
      by (rule parseLoop_alike)
    then have "alike (parseLoop st (compress True ls)) (parseLoop ?st1 ls)"
      using IH True by (auto intro: alike_trans)
    then show ?thesis using True by simp
  next
    case False
    have step: "parseStep st l (compress (l = LEmpty) ls) = ?st1"
      by (rule parseStep_lookahead) (rule lookahead_compress)
    have "compress (0 < consecutiveEmptyLines st) (l # ls) = l # compress (l = LEmpty) ls"
      using False by (cases l) auto
    then show ?thesis using step IH by simp
  qed
qed

lemma parseBlocks_compress: "parseBlocks (compress False ls) = parseBlocks ls"
proof -
  have "alike (parseLoop initialState (compress False ls)) (parseLoop initialState ls)"
    using parseLoop_compress[of initialState ls] by (simp add: initialState_def)
  then show ?thesis unfolding parseBlocks_def by (rule finish_alike)
qed

text \<open>The raw fields are carried through the grouping pass.\<close>

lemma lookahead_rederive:
  "isNextNonEmptyComment (map rederiveLine ls) = isNextNonEmptyComment ls"
  by (induction ls rule: isNextNonEmptyComment.induct) auto

lemma parseStep_rederive:
  "parseStep (rederiveState st) (rederiveLine l) (map rederiveLine rest)
     = rederiveState (parseStep st l rest)"
  by (cases l) (auto simp: parseStep_def rederiveState_def Let_def lookahead_rederive)

lemma parseLoop_rederive:
  "parseLoop (rederiveState st) (map rederiveLine ls) = rederiveState (parseLoop st ls)"
  by (induction ls arbitrary: st) (auto simp: parseStep_rederive)

lemma parseBlocks_rederive: "parseBlocks (map rederiveLine ls) = map rederive (parseBlocks ls)"
proof -
  have "rederiveState initialState = initialState"
    by (simp add: rederiveState_def initialState_def)
  then have "parseLoop initialState (map rederiveLine ls) = rederiveState (parseLoop initialState ls)"
    using parseLoop_rederive[of initialState ls] by simp
  then show ?thesis
    by (simp add: parseBlocks_def finish_def rederiveState_def)
qed

lemma compress_rederive: "compress inRun (map rederiveLine ls) = map rederiveLine (compress inRun ls)"
  by (induction inRun ls rule: compress.induct) auto

lemma reparse_blocks:
  assumes "\<And>c. LComment c \<in> set ls \<Longrightarrow> c \<noteq> []"
  shows "parseBlocks (map (rederiveLine \<circ> blankMarker) (serializeBlocks (parseBlocks ls)))
           = map rederive (parseBlocks ls)"
proof -
  have "map (rederiveLine \<circ> blankMarker) (serializeBlocks (parseBlocks ls))
          = map rederiveLine (compress False ls)"
    using parseBlocks_serialized[OF assms] by (simp flip: map_map)
  then show ?thesis
    by (simp add: compress_rederive[symmetric] parseBlocks_compress parseBlocks_rederive)
qed

lemma EQUALS_plain: "\<not> isIdentChar EQUALS" "\<not> isWhitespace EQUALS" "\<not> isLineTerminator EQUALS"
  by (simp_all add: isIdentChar_def isIdentStart_def isWhitespace_def isLineTerminator_def char_defs)

lemma ident_plain: "isIdentChar c \<Longrightarrow> \<not> isLineTerminator c"
  by (auto simp: isIdentChar_def isIdentStart_def isLineTerminator_def char_defs)

lemma matchVariable_Some:
  assumes "matchVariable l = Some (k, m)"
  shows "isIdentifier k \<and> (\<forall>x\<in>set m. \<not> isLineTerminator x)"
proof -
  from assms obtain c cs e rest where l: "l = c # cs" and c: "isIdentStart c"
    and d: "dropWhile isWhitespace (dropWhile isIdentChar cs) = e # rest"
    by (auto simp: matchVariable_def split: list.splits if_splits)
  from assms l c d have k: "k = c # takeWhile isIdentChar cs"
    and m: "m = dropWhile isWhitespace rest" and nt: "\<not> list_ex isLineTerminator m"
    by (auto simp: matchVariable_def Let_def split: if_splits)
  have "list_all isIdentChar (takeWhile isIdentChar cs)"
    by (simp add: list_all_iff) (meson set_takeWhileD)
  then show ?thesis using c k nt by (simp add: isIdentifier_def list_ex_iff)
qed

lemma set_replacePair: "set (replacePair a b r s) \<subseteq> set s \<union> set r"
  by (induction a b r s rule: replacePair.induct) auto

lemma set_trim: "set (trim s) \<subseteq> set s"
  by (auto simp: trim_def dest!: set_dropWhileD)

lemma set_slice: "set (slice s a b) \<subseteq> set s"
  by (auto simp: slice_def Let_def dest!: in_set_takeD in_set_dropD)

lemma set_unescape: "set (unescape s) \<subseteq> set s \<union> {LF, CR, TAB, BACKSLASH, DQUOTE}"
proof -
  have e: "y \<in> set (replacePair a b [c] x) \<Longrightarrow> y = c \<or> y \<in> set x" for y a b c x
    using set_replacePair[of a b "[c]" x] by auto
  show ?thesis
    unfolding unescape_def by (auto dest!: e)
qed

lemma set_unquoteValue: "set (unquoteValue m) \<subseteq> set m \<union> {LF, CR, TAB, BACKSLASH, DQUOTE}"
proof -
  have "set (slice (trim m) 1 (- 1)) \<subseteq> set m"
    using set_slice set_trim by blast
  moreover have "set (unescape (slice (trim m) 1 (- 1)))
                   \<subseteq> set (slice (trim m) 1 (- 1)) \<union> {LF, CR, TAB, BACKSLASH, DQUOTE}"
    by (rule set_unescape)
  ultimately show ?thesis
    using set_trim[of m] by (auto simp: unquoteValue_def Let_def)
qed

lemma parseLine_variable:
  assumes "parseLine l = LVariable k v r"
  shows "isIdentifier k \<and> 8232 \<notin> set v \<and> 8233 \<notin> set v"
proof -
  from assms obtain m where m: "matchVariable l = Some (k, m)" and v: "v = unquoteValue m"
    by (auto simp: parseLine_def Let_def split: if_splits option.splits)
  from matchVariable_Some[OF m] have k: "isIdentifier k"
    and nt: "\<forall>x\<in>set m. \<not> isLineTerminator x" by simp_all
  have "8232 \<notin> set m" "8233 \<notin> set m"
    using nt by (auto simp: isLineTerminator_def)
  then show ?thesis
    using k set_unquoteValue[of m] unfolding v by (auto simp: char_defs)
qed

lemma parseLine_comment: "parseLine l = LComment c \<Longrightarrow> c = l \<and> c \<noteq> []"
  by (auto simp: parseLine_def trim_def Let_def split: if_splits option.splits)

lemma splitFrom_LF_free:
  "LF \<notin> set piece \<Longrightarrow> l \<in> set (splitFrom piece s) \<Longrightarrow> LF \<notin> set l"
  by (induction piece s rule: splitFrom.induct) (auto split: if_splits)

lemma splitLines_LF_free: "l \<in> set (splitLines t) \<Longrightarrow> LF \<notin> set l"
  unfolding splitLines_def by (rule splitFrom_LF_free[of "[]"]) simp_all

lemma splitFrom_nonempty: "splitFrom piece s \<noteq> []"
  by (induction piece s rule: splitFrom.induct) auto

lemma matchVariable_rendered:
  assumes "isIdentifier k" and "\<forall>x\<in>set q. \<not> isLineTerminator x"
    and "q = [] \<or> \<not> isWhitespace (hd q)"
  shows "matchVariable (k @ EQUALS # q) = Some (k, q)"
proof -
  from assms(1) obtain c cs where k: "k = c # cs" and c: "isIdentStart c"
    and cs: "\<And>x. x \<in> set cs \<Longrightarrow> isIdentChar x"
    by (auto simp: isIdentifier_def list_all_iff split: list.splits)
  have d: "dropWhile isIdentChar (cs @ EQUALS # q) = EQUALS # q"
    using cs by (simp add: dropWhile_append2 EQUALS_plain)
  have t: "takeWhile isIdentChar (cs @ EQUALS # q) = cs"
    using cs by (simp add: takeWhile_append2 EQUALS_plain)
  have w: "dropWhile isWhitespace q = q"
    using assms(3) by (cases q) auto
  show ?thesis
    using c assms(2) by (simp add: matchVariable_def k d t w EQUALS_plain list_ex_iff)
qed

lemma trim_fixed: "trim v = v \<Longrightarrow> v = [] \<or> \<not> isWhitespace (hd v)"
proof (rule ccontr)
  assume t: "trim v = v" and "\<not> (v = [] \<or> \<not> isWhitespace (hd v))"
  then obtain x xs where v: "v = x # xs" and x: "isWhitespace x"
    by (cases v) auto
  have "length (trim v) \<le> length (dropWhile isWhitespace v)"
    using length_dropWhile_le[of isWhitespace "rev (dropWhile isWhitespace v)"]
    by (simp add: trim_def)
  also have "\<dots> \<le> length xs"
    using x length_dropWhile_le[of isWhitespace xs] by (simp add: v)
  finally show False using t v by simp
qed

lemma encode_plain:
  "x \<in> set (encodeWith [BACKSLASH, DQUOTE, LF, CR, TAB] v) \<Longrightarrow>
   x \<noteq> LF \<and> x \<noteq> CR \<and> (x \<in> set v \<or> x = BACKSLASH \<or> x = LOWER_N \<or> x = LOWER_R \<or> x = LOWER_T)"
  by (induction v) (auto simp: escapeWith_def codeOf_def char_defs split: if_splits)

lemma quoteValue_one_line:
  assumes "8232 \<notin> set v" and "8233 \<notin> set v"
  shows "\<forall>x\<in>set (quoteValue v). \<not> isLineTerminator x"
proof (cases "needsQuotes v")
  case True
  have "\<not> isLineTerminator x" if "x \<in> set (escape v)" for x
    using encode_plain[of x v] that assms
    unfolding escape_encodeWith by (auto simp: isLineTerminator_def char_defs)
  then show ?thesis
    using True by (auto simp: quoteValue_def isLineTerminator_def char_defs)
next
  case False
  then have "LF \<notin> set v" "CR \<notin> set v"
    by (auto simp: needsQuotes_def includesChar_def)
  then show ?thesis
    using False assms by (auto simp: quoteValue_def isLineTerminator_def)
qed

lemma quoteValue_no_leading_space:
  assumes "roundTripSafe v"
  shows "quoteValue v = [] \<or> \<not> isWhitespace (hd (quoteValue v))"
  using assms trim_fixed[of v]
  by (auto simp: roundTripSafe_def quoteValue_def DQUOTE_not_whitespace)

lemma parseLine_rendered:
  assumes "isIdentifier k" and "roundTripSafe v" and "8232 \<notin> set v" and "8233 \<notin> set v"
  shows "parseLine (k @ EQUALS # quoteValue v) = LVariable k v (k @ EQUALS # quoteValue v)"
proof -
  have m: "matchVariable (k @ EQUALS # quoteValue v) = Some (k, quoteValue v)"
    using assms(1) quoteValue_one_line[OF assms(3,4)] quoteValue_no_leading_space[OF assms(2)]
    by (rule matchVariable_rendered)
  show ?thesis
    using m matchVariable_not_blank[OF m] unquote_quote[OF assms(2)]
    by (simp add: parseLine_def)
qed

lemma set_compress: "set (compress inRun ls) \<subseteq> set ls"
  by (induction inRun ls rule: compress.induct) auto

lemma compress_nonempty: "ls \<noteq> [] \<Longrightarrow> compress False ls \<noteq> []"
  by (cases "(False, ls)" rule: compress.cases) auto

lemma serialized_variable:
  "LVariable k v r \<in> set (serializeBlocks d) \<Longrightarrow> \<exists>cs. VariableBlock k v r cs \<in> set d"
proof (induction d)
  case Nil
  then show ?case by simp
next
  case (Cons b d)
  then show ?case by (cases b) auto
qed

lemma endsWith_last: "endsWith s c \<longleftrightarrow> s \<noteq> [] \<and> last s = c"
  by (cases s rule: rev_cases) (auto simp: endsWith_def)

lemma ident_not_break:
  assumes "isIdentifier k" and "x \<in> set k"
  shows "\<not> isLineTerminator x"
proof -
  have "isIdentChar x"
    using assms by (cases k) (auto simp: isIdentifier_def list_all_iff isIdentChar_def)
  then show ?thesis by (rule ident_plain)
qed

lemma document_round_trip:
  assumes safe: "\<And>b. b \<in> set (parseEnvFile t) \<Longrightarrow> isVariableBlock b \<Longrightarrow> roundTripSafe (val b)"
    and cr: "\<And>c. LComment c \<in> set (serializeBlocks (parseEnvFile t)) \<Longrightarrow> \<not> endsWith c CR"
  shows "parseEnvFile (serializeToString (parseEnvFile t)) = map rederive (parseEnvFile t)"
proof -
  define ls where "ls = map parseLine (splitLines t)"
  define sl where "sl = serializeBlocks (parseBlocks ls)"
  have d: "parseEnvFile t = parseBlocks ls"
    by (simp add: parseEnvFile_def ls_def)
  have ne: "\<And>c. LComment c \<in> set ls \<Longrightarrow> c \<noteq> []"
    unfolding ls_def using parseLine_comment by force
  have marked: "map blankMarker sl = compress False ls"
    unfolding sl_def by (rule parseBlocks_serialized) (rule ne)
  have mem: "blankMarker l \<in> set ls" if "l \<in> set sl" for l
  proof -
    have "blankMarker l \<in> set (map blankMarker sl)" using that by simp
    then show ?thesis unfolding marked using set_compress by blast
  qed
  have comment: "parseLine c = LComment c \<and> LF \<notin> set c"
    if "LComment c \<in> set sl" and "c \<noteq> []" for c
  proof -
    have "LComment c \<in> set ls" using mem[OF that(1)] that(2) by simp
    then obtain l where l: "l \<in> set (splitLines t)" "parseLine l = LComment c"
      unfolding ls_def by auto
    then show ?thesis using parseLine_comment[OF l(2)] splitLines_LF_free[OF l(1)] by simp
  qed
  have variable: "isIdentifier k \<and> roundTripSafe v \<and> 8232 \<notin> set v \<and> 8233 \<notin> set v"
    if in_sl: "LVariable k v r \<in> set sl" for k v r
  proof -
    have "LVariable k v r \<in> set ls" using mem[OF in_sl] by simp
    then obtain l where l: "parseLine l = LVariable k v r"
      unfolding ls_def by auto
    have "\<exists>cs. VariableBlock k v r cs \<in> set (parseEnvFile t)"
      using serialized_variable[of k v r "parseBlocks ls"] in_sl unfolding sl_def d by simp
    then obtain cs where "VariableBlock k v r cs \<in> set (parseEnvFile t)" ..
    from safe[OF this] have "roundTripSafe v" by simp
    then show ?thesis using parseLine_variable[OF l] by simp
  qed
  have reparsed: "parseLine (renderLine l) = (rederiveLine \<circ> blankMarker) l" if "l \<in> set sl" for l
  proof (cases l)
    case (LComment c)
    then show ?thesis
      using comment[of c] that by (cases "c = []") (simp_all add: parseLine_def trim_def)
  next
    case LEmpty
    then show ?thesis by (simp add: parseLine_def trim_def)
  next
    case (LVariable k v r)
    then show ?thesis
      using variable[of k v r] that by (simp add: parseLine_rendered)
  qed
  have one_line: "LF \<notin> set (renderLine l) \<and> (renderLine l = [] \<or> last (renderLine l) \<noteq> CR)"
    if "l \<in> set sl" for l
  proof (cases l)
    case (LComment c)
    have "\<not> endsWith c CR"
      using cr[of c] that LComment unfolding sl_def d by simp
    then show ?thesis
      using comment[of c] that LComment by (cases "c = []") (simp_all add: endsWith_last)
  next
    case LEmpty
    then show ?thesis by simp
  next
    case (LVariable k v r)
    have v: "isIdentifier k" "8232 \<notin> set v" "8233 \<notin> set v"
      using variable[of k v r] that LVariable by simp_all
    have "\<not> isLineTerminator x" if "x \<in> set (k @ EQUALS # quoteValue v)" for x
      using that ident_not_break[OF v(1)] quoteValue_one_line[OF v(2,3)] EQUALS_plain(3)
      by auto
    then have "LF \<notin> set (k @ EQUALS # quoteValue v)" "CR \<notin> set (k @ EQUALS # quoteValue v)"
      by (auto simp: isLineTerminator_def)
    moreover have "k @ EQUALS # quoteValue v \<noteq> []" by simp
    ultimately show ?thesis
      using LVariable last_in_set[of "k @ EQUALS # quoteValue v"] by (simp del: last_in_set) metis
  qed
  have "ls \<noteq> []"
    unfolding ls_def splitLines_def by (simp add: splitFrom_nonempty)
  then have "sl \<noteq> []"
    using marked compress_nonempty[of ls] by auto
  then have "splitLines (joinLines (map renderLine sl)) = map renderLine sl"
    using one_line by (intro split_join) auto
  then have "parseEnvFile (serializeToString (parseBlocks ls))
               = parseBlocks (map (rederiveLine \<circ> blankMarker) sl)"
    using reparsed by (simp add: parseEnvFile_def serializeToString_def sl_def cong: map_cong)
  also have "\<dots> = map rederive (parseBlocks ls)"
    unfolding sl_def by (rule reparse_blocks) (rule ne)
  finally show ?thesis unfolding d .
qed

text \<open>
  Claim C3, amended. For every value in which no backslash is directly followed by
  \<open>n\<close>, \<open>r\<close> or \<open>t\<close>, and which has no white space at its ends when it is
  written without quotes, decoding the quoted value gives the value back. For every
  document produced by \<open>parseEnvFile\<close> whose variable values are all of this kind and
  in which no comment line ends with a carriage return, parsing the serialized document
  gives the same blocks in the same order, with the same keys, values, comments and comment
  lines; only the raw field of a variable is made anew from the key and the quoted value.
\<close>

theorem round_trip:
  "(roundTripSafe v \<longrightarrow> unquoteValue (quoteValue v) = v) \<and>
   ((\<forall>b\<in>set (parseEnvFile t). isVariableBlock b \<longrightarrow> roundTripSafe (val b)) \<and>
    (\<forall>c. LComment c \<in> set (serializeBlocks (parseEnvFile t)) \<longrightarrow> \<not> endsWith c CR) \<longrightarrow>
      parseEnvFile (serializeToString (parseEnvFile t)) = map rederive (parseEnvFile t))"
  using unquote_quote document_round_trip by blast

theorem round_trip_witness:
  "roundTripSafe (js ''a b'') \<and>
   unquoteValue (quoteValue (js ''a b'')) = js ''a b'' \<and>
   parseEnvFile (js ''# c\<newline>\<newline>\<newline>K = a b'')
     = [CommentBlock [js ''# c''], EmptyBlock,
        VariableBlock (js ''K'') (js ''a b'') (js ''K = a b'') []] \<and>
   parseEnvFile (serializeToString (parseEnvFile (js ''# c\<newline>\<newline>\<newline>K = a b'')))
     = [CommentBlock [js ''# c''], EmptyBlock,
        VariableBlock (js ''K'') (js ''a b'') (js ''K='' @ DQUOTE # js ''a b'' @ [DQUOTE]) []]"
proof -
  have s: "roundTripSafe (js ''a b'')"
    by (simp add: roundTripSafe_def hasAmbiguousEscape_def needsQuotes_def string_defs char_defs)
  have p: "parseEnvFile (js ''# c\<newline>\<newline>\<newline>K = a b'')
     = [CommentBlock [js ''# c''], EmptyBlock,
        VariableBlock (js ''K'') (js ''a b'') (js ''K = a b'') []]"
    by (simp add: parser_defs string_defs char_defs)
  have c: "\<not> endsWith (js ''# c'') CR"
    by (simp add: string_defs char_defs)
  have q: "js ''K'' @ EQUALS # quoteValue (js ''a b'') = js ''K='' @ DQUOTE # js ''a b'' @ [DQUOTE]"
    by (simp add: parser_defs string_defs char_defs)
  show ?thesis
    using round_trip[of "js ''a b''" "js ''# c\<newline>\<newline>\<newline>K = a b''" ] s c
    unfolding p by (simp add: q)
qed

section \<open>The placement of comment blocks\<close>

text \<open>
  A comment block of source whose anchor, the next variable behind it in source, has its
  key in the chain: a copy is spliced immediately before the first block with that key,
  unless the nearest block before it that is not empty is an equal comment block. A
  comment block without an anchor, or whose anchor has a key the chain does not know,
  always becomes the tail.
\<close>

lemma insertCommentBlock_anchored:
  assumes "findNextVariable behind = Some variable"
    and "findVariableBlock head (key variable) = Some point"
  shows "insertCommentBlock head comment behind =
           (if areBlocksEqual (skipEmptyBackwards (rev (take point head))) (Some comment)
            then head
            else take point head @ comment # drop point head)"
proof -
  have "point < length head"
    using findVariableBlock_Some[OF assms(2)] by simp
  then show ?thesis
    using assms by (auto simp: insertCommentBlock_def hasCommentBlockBefore_def insertBefore_def)
qed

lemma insertCommentBlock_unanchored:
  assumes "findNextVariable behind = None \<or>
           (\<exists>variable. findNextVariable behind = Some variable \<and>
                       findVariableBlock head (key variable) = None)"
  shows "insertCommentBlock head comment behind = head @ [comment]"
  using assms by (auto simp: insertCommentBlock_def appendComment_always)

section \<open>The mark of a run of blank lines\<close>













section \<open>The raw field after a merge\<close>

lemma foldl_resolve_twice:
  assumes "ds \<noteq> []" and "found \<noteq> None \<or> 1 < length ds"
  shows "foldl (resolve k) found ds
     = Some (VariableBlock k (val (last ds)) (k @ EQUALS # quoteValue (val (last ds))) (comments (last ds)))"
proof (cases "found = None")
  case False
  then show ?thesis using assms(1) by (simp add: foldl_resolve_last)
next
  case True
  then obtain d ds' where ds: "ds = d # ds'" and ne: "ds' \<noteq> []"
    using assms by (cases ds) auto
  have "foldl (resolve k) (resolve k found d) ds'
     = Some (VariableBlock k (val (last ds')) (k @ EQUALS # quoteValue (val (last ds'))) (comments (last ds')))"
    using ne resolve_Some[of k found d] by (rule foldl_resolve_last)
  then show ?thesis using ds ne by simp
qed

lemma mergeSources_found:
  assumes "a \<noteq> []"
  shows "foundBlock (mergeSources (a # later)) k
           = foldl (resolve k) (foundBlock a k) (definitionsOf (concat later) k)"
  using assms
  by (simp add: mergeSources_Cons foldl_mergeTwo_found concat_filter_nonempty)

lemma mergeVariables_distinct:
  "distinct (varKeys head) \<Longrightarrow> distinct (varKeys (mergeVariables head src))"
proof (induction src arbitrary: head)
  case Nil
  then show ?case by simp
next
  case (Cons current rest)
  show ?case
  proof (cases "isVariableBlock current")
    case False
    then show ?thesis using Cons by simp
  next
    case var: True
    show ?thesis
    proof (cases "findVariableBlock head (key current)")
      case (Some i)
      then show ?thesis
        using var Cons.prems Cons.IH[of "head[i := overrideBlock (head ! i) current]"]
        by (simp add: varKeys_override)
    next
      case None
      have k: "key current \<notin> set (varKeys head)"
        using None by (simp add: findVariableBlock_varKeys)
      show ?thesis
      proof (cases "findIntersectionPoint rest head")
        case (Some p)
        from findIntersectionPoint_Some[OF Some] obtain k' where
          p: "findVariableBlock head k' = Some p" by blast
        let ?tw = "takeWhile (\<lambda>x. x \<noteq> k') (varKeys head)"
        let ?dw = "dropWhile (\<lambda>x. x \<noteq> k') (varKeys head)"
        have "distinct (?tw @ ?dw)"
          using Cons.prems by simp
        then have parts: "distinct ?tw \<and> distinct ?dw \<and> set ?tw \<inter> set ?dw = {}"
          by (simp only: distinct_append)
        have "key current \<notin> set ?tw" "key current \<notin> set ?dw"
          using k by (auto dest: set_takeWhileD set_dropWhileD)
        then have "distinct (?tw @ key current # ?dw)"
          using parts by (simp only: distinct_append distinct.simps set_simps) blast
        then have "distinct (varKeys (insertBefore head p current))"
          unfolding varKeys_insertBefore[OF p var] .
        then show ?thesis
          using var None Some Cons.IH[of "insertBefore head p current"] by simp
      next
        case np: None
        have "distinct (varKeys (appendToTail head current))"
          using var k Cons.prems by (simp add: appendToTail_def)
        then show ?thesis
          using var None np Cons.IH[of "appendToTail head current"] by simp
      qed
    qed
  qed
qed

lemma mergeTwo_distinct:
  "distinct (varKeys base) \<Longrightarrow> distinct (varKeys (mergeTwo base source))"
  by (simp add: mergeTwo_def varKeys_mergeComments mergeVariables_distinct)

lemma foldl_mergeTwo_distinct:
  "distinct (varKeys base) \<Longrightarrow> distinct (varKeys (foldl mergeTwo base docs))"
  by (induction docs arbitrary: base) (auto simp: mergeTwo_distinct)

lemma distinct_found:
  "distinct (varKeys doc) \<Longrightarrow> b \<in> set doc \<Longrightarrow> isVariableBlock b \<Longrightarrow>
   foundBlock doc (key b) = Some b"
proof (induction doc)
  case Nil
  then show ?case by simp
next
  case (Cons x doc)
  show ?case
  proof (cases "isDefinition (key b) x")
    case True
    have "x = b"
    proof (rule ccontr)
      assume "x \<noteq> b"
      then have "b \<in> set doc" using Cons.prems(2) by simp
      then have "key b \<in> set (varKeys doc)"
        using Cons.prems(3) by (auto simp: varKeys_def)
      then show False using Cons.prems(1) True by (simp add: isDefinition_def)
    qed
    then show ?thesis using True by (simp add: foundBlock_find)
  next
    case False
    then have "b \<in> set doc"
      using Cons.prems(2,3) by (auto simp: isDefinition_def)
    moreover have "distinct (varKeys doc)"
      using Cons.prems(1) by (simp split: if_splits)
    ultimately show ?thesis
      using Cons.IH Cons.prems(3) False by (simp add: foundBlock_find)
  qed
qed

lemma mergeSources_each_found:
  assumes "a \<noteq> []" and "distinct (varKeys a)"
    and "b \<in> set (mergeSources (a # later))" and "isVariableBlock b"
  shows "foundBlock (mergeSources (a # later)) (key b) = Some b"
proof -
  have "distinct (varKeys (mergeSources (a # later)))"
    using assms(1,2) by (simp add: mergeSources_Cons foldl_mergeTwo_distinct)
  then show ?thesis using assms(3,4) by (rule distinct_found)
qed

text \<open>
  Claim C8, amended. For every variable block of a parsed document, the raw field is the
  physical line the block was parsed from, a line that parses to the key and the value of
  the block; it is not in general the form \<open>key=quote(value)\<close>. In a document merged
  by \<open>mergeSources\<close>: the block found for a key that the first document defines and a
  later document defines again, or that the later documents define more than once, has the
  value and the comments of the rightmost later definition and the raw field re-derived
  from the key and the quoted value; the block found for a key that no later document
  defines is the block of the first document, raw field and all; the block found for a key
  that the first document lacks and the later documents define once is that definition,
  raw field and all; when the keys of the first document are pairwise different, every
  variable block of the merged document is the block found for its key. In every case the
  raw field of a block merged from parsed documents is \<open>key=quote(value)\<close> or a
  physical line of an input that parses to the key and the value.
\<close>

theorem raw_field:
  "(b \<in> set (parseEnvFile text) \<and> isVariableBlock b \<longrightarrow>
      raw b \<in> set (splitLines text) \<and> parseLine (raw b) = LVariable (key b) (val b) (raw b)) \<and>
   (b \<in> set (mergeSources (map parseEnvFile texts)) \<and> isVariableBlock b \<longrightarrow>
      raw b = key b @ EQUALS # quoteValue (val b) \<or>
      (\<exists>t\<in>set texts. raw b \<in> set (splitLines t)) \<and>
        parseLine (raw b) = LVariable (key b) (val b) (raw b)) \<and>
   (a \<noteq> [] \<and> definitionsOf (concat later) k \<noteq> [] \<and>
    (foundBlock a k \<noteq> None \<or> 1 < length (definitionsOf (concat later) k)) \<longrightarrow>
      foundBlock (mergeSources (a # later)) k =
        Some (VariableBlock k
                (val (last (definitionsOf (concat later) k)))
                (k @ EQUALS # quoteValue (val (last (definitionsOf (concat later) k))))
                (comments (last (definitionsOf (concat later) k))))) \<and>
   (a \<noteq> [] \<and> definitionsOf (concat later) k = [] \<longrightarrow>
      foundBlock (mergeSources (a # later)) k = foundBlock a k) \<and>
   (a \<noteq> [] \<and> foundBlock a k = None \<and> definitionsOf (concat later) k = [d] \<longrightarrow>
      foundBlock (mergeSources (a # later)) k = Some d) \<and>
   (a \<noteq> [] \<and> distinct (varKeys a) \<and> b \<in> set (mergeSources (a # later)) \<and> isVariableBlock b \<longrightarrow>
      foundBlock (mergeSources (a # later)) (key b) = Some b)"
proof -
  let ?Q = "\<lambda>b. isVariableBlock b \<longrightarrow>
      raw b = key b @ EQUALS # quoteValue (val b) \<or>
      (\<exists>t\<in>set texts. raw b \<in> set (splitLines t)) \<and>
        parseLine (raw b) = LVariable (key b) (val b) (raw b)"
  have merged: "?Q b" if "b \<in> set (mergeSources (map parseEnvFile texts))"
  proof (rule mergeSources_all[where Q = ?Q and docs = "map parseEnvFile texts"])
    fix h d
    show "?Q (overrideBlock h d)" using overrideBlock_raw by blast
  next
    fix d x
    assume "d \<in> set (map parseEnvFile texts)" and "x \<in> set d"
    then show "?Q x" using parseEnvFile_raw by auto
  next
    show "b \<in> set (mergeSources (map parseEnvFile texts))" by (rule that)
  qed
  have parsed: "b \<in> set (parseEnvFile text) \<and> isVariableBlock b \<longrightarrow>
      raw b \<in> set (splitLines text) \<and> parseLine (raw b) = LVariable (key b) (val b) (raw b)"
    using parseEnvFile_raw by blast
  have over: "a \<noteq> [] \<and> definitionsOf (concat later) k \<noteq> [] \<and>
    (foundBlock a k \<noteq> None \<or> 1 < length (definitionsOf (concat later) k)) \<longrightarrow>
      foundBlock (mergeSources (a # later)) k =
        Some (VariableBlock k
                (val (last (definitionsOf (concat later) k)))
                (k @ EQUALS # quoteValue (val (last (definitionsOf (concat later) k))))
                (comments (last (definitionsOf (concat later) k))))"
    by (simp add: mergeSources_found foldl_resolve_twice)
  have kept: "a \<noteq> [] \<and> definitionsOf (concat later) k = [] \<longrightarrow>
      foundBlock (mergeSources (a # later)) k = foundBlock a k"
    by (simp add: mergeSources_found)
  have copied: "a \<noteq> [] \<and> foundBlock a k = None \<and> definitionsOf (concat later) k = [d] \<longrightarrow>
      foundBlock (mergeSources (a # later)) k = Some d"
    by (simp add: mergeSources_found resolve_def)
  have each: "a \<noteq> [] \<and> distinct (varKeys a) \<and> b \<in> set (mergeSources (a # later)) \<and>
      isVariableBlock b \<longrightarrow> foundBlock (mergeSources (a # later)) (key b) = Some b"
    using mergeSources_each_found by blast
  show ?thesis
    using parsed merged over kept copied each by blast
qed

lemma parse_K0B2: "parseEnvFile (js ''K = 0\<newline>B = 2'') =
   [VariableBlock (js ''K'') (js ''0'') (js ''K = 0'') [],
    VariableBlock (js ''B'') (js ''2'') (js ''B = 2'') []]"
  by (simp add: parser_defs string_defs char_defs)

lemma parse_K1N3: "parseEnvFile (js ''K = 1\<newline>N = 3'') =
   [VariableBlock (js ''K'') (js ''1'') (js ''K = 1'') [],
    VariableBlock (js ''N'') (js ''3'') (js ''N = 3'') []]"
  by (simp add: parser_defs string_defs char_defs)

theorem raw_field_witness:
  "mergeSources [parseEnvFile (js ''K = 0\<newline>B = 2''), parseEnvFile (js ''K = 1\<newline>N = 3'')]
     = [VariableBlock (js ''K'') (js ''1'') (js ''K=1'') [],
        VariableBlock (js ''B'') (js ''2'') (js ''B = 2'') [],
        VariableBlock (js ''N'') (js ''3'') (js ''N = 3'') []] \<and>
   foundBlock (mergeSources [parseEnvFile (js ''K = 0\<newline>B = 2''),
                             parseEnvFile (js ''K = 1\<newline>N = 3'')]) (js ''K'')
     = Some (VariableBlock (js ''K'') (js ''1'') (js ''K=1'') []) \<and>
   foundBlock (mergeSources [parseEnvFile (js ''K = 0\<newline>B = 2''),
                             parseEnvFile (js ''K = 1\<newline>N = 3'')]) (js ''B'')
     = Some (VariableBlock (js ''B'') (js ''2'') (js ''B = 2'') []) \<and>
   foundBlock (mergeSources [parseEnvFile (js ''K = 0\<newline>B = 2''),
                             parseEnvFile (js ''K = 1\<newline>N = 3'')]) (js ''N'')
     = Some (VariableBlock (js ''N'') (js ''3'') (js ''N = 3'') []) \<and>
   VariableBlock (js ''B'') (js ''2'') (js ''B = 2'') [] \<in> set (parseEnvFile (js ''K = 0\<newline>B = 2'')) \<and>
   js ''B = 2'' \<in> set (splitLines (js ''K = 0\<newline>B = 2'')) \<and>
   parseLine (js ''B = 2'') = LVariable (js ''B'') (js ''2'') (js ''B = 2'')"
proof -
  let ?t1 = "js ''K = 0\<newline>B = 2''"
  let ?t2 = "js ''K = 1\<newline>N = 3''"
  let ?b = "VariableBlock (js ''B'') (js ''2'') (js ''B = 2'') []"
  let ?n = "VariableBlock (js ''N'') (js ''3'') (js ''N = 3'') []"
  have m: "mergeSources [[VariableBlock (js ''K'') (js ''0'') (js ''K = 0'') [], ?b],
                         [VariableBlock (js ''K'') (js ''1'') (js ''K = 1'') [], ?n]]
     = [VariableBlock (js ''K'') (js ''1'') (js ''K=1'') [], ?b, ?n]"
    by (simp add: merger_defs parser_defs string_defs char_defs)
  have q: "js ''K'' @ EQUALS # quoteValue (js ''1'') = js ''K=1''"
    by (simp add: parser_defs string_defs char_defs)
  have names: "js ''K'' \<noteq> js ''B''" "js ''K'' \<noteq> js ''N''" "js ''B'' \<noteq> js ''N''"
    by (simp_all add: js_def)
  show ?thesis
    using raw_field[of ?b ?t1 "[?t1, ?t2]" "parseEnvFile ?t1" "[parseEnvFile ?t2]" "js ''K''" ?n]
      raw_field[of ?b ?t1 "[?t1, ?t2]" "parseEnvFile ?t1" "[parseEnvFile ?t2]" "js ''B''" ?n]
      raw_field[of ?b ?t1 "[?t1, ?t2]" "parseEnvFile ?t1" "[parseEnvFile ?t2]" "js ''N''" ?n]
      names
    unfolding parse_K0B2 parse_K1N3 m
    by (simp add: q definitionsOf_def isDefinition_def foundBlock_def)
qed

end
